theory Spec2Isabelle
  imports Main
begin

section \<open>tiniestfsm: the dispatch and transition engine of \<open>include/tiniestfsm.h\<close>\<close>

text \<open>
  The engine is a class template \<open>StateMachine<DerivedClass, std::tuple<States...>>\<close>.
  Its template arguments are types; the embedding represents a type by a value of some
  type \<open>'t\<close> that is compared with \<open>=\<close> (\<open>std::is_same_v\<close>), and the pack
  \<open>States...\<close> by the list of these values, in declaration order.

  The number of template arguments a compiler accepts is far below the range of
  \<open>unsigned\<close>, \<open>size_t\<close> and (in the switch strategy, which is limited to 256 states)
  \<open>uint16_t\<close>, so none of the counters and indices of the source wraps; they are
  natural numbers here.
\<close>

subsection \<open>Type-list utilities (namespace \<open>details\<close>)\<close>

text \<open>
  \<open>elem_in_list_v<Elem, List...> = (false || ... || std::is_same_v<Elem, List>)\<close>:
  a binary left fold over the pack, starting from \<open>false\<close>.
\<close>

definition elem_in_list_v :: "'t \<Rightarrow> 't list \<Rightarrow> bool" where
  "elem_in_list_v Elem List = foldl (\<lambda>acc T. acc \<or> Elem = T) False List"

text \<open>
  \<open>count_in_list_v<Elem, List...> = (0u + ... + std::is_same_v<Elem, List>)\<close>:
  a binary left fold starting from \<open>0u\<close>; each \<open>bool\<close> is promoted to 0 or 1.
\<close>

definition count_in_list_v :: "'t \<Rightarrow> 't list \<Rightarrow> nat" where
  "count_in_list_v Elem List = foldl (\<lambda>acc T. acc + (if Elem = T then 1 else 0)) 0 List"

text \<open>
  \<open>are_distinct_v<Ts...> = (true && ... && (count_in_list_v<Ts, Ts...> == 1))\<close>:
  the pack is expanded twice, once as the element counted and once as the whole list.
\<close>

definition are_distinct_v :: "'t list \<Rightarrow> bool" where
  "are_distinct_v Ts = foldl (\<lambda>acc T. acc \<and> count_in_list_v T Ts = 1) True Ts"

text \<open>
  The reference definitions of the specification, in its own words: \<open>contains\<close> is true
  iff the element is identical to some entry of the list, \<open>countOccurrences\<close> is the
  number of entries equal to the element, \<open>allDistinct\<close> is true iff every entry occurs
  exactly once.
\<close>

definition spec_contains :: "'t \<Rightarrow> 't list \<Rightarrow> bool" where
  "spec_contains Elem List = (\<exists>i < length List. List ! i = Elem)"

definition spec_countOccurrences :: "'t \<Rightarrow> 't list \<Rightarrow> nat" where
  "spec_countOccurrences Elem List = length (filter (\<lambda>i. List ! i = Elem) [0 ..< length List])"

definition spec_allDistinct :: "'t list \<Rightarrow> bool" where
  "spec_allDistinct List = (\<forall>i < length List. spec_countOccurrences (List ! i) List = 1)"


subsection \<open>Outcomes of a call\<close>

text \<open>
  Every way a call of the engine can end is a value. A \<open>static_assert\<close> that fails, a
  call that does not resolve and a \<open>std::get\<close> that is ill-formed reject the program at
  compile time; \<open>_TINIEST_FSM_UNREACHABLE\<close> (\<open>__builtin_unreachable()\<close>,
  \<open>__assume(false)\<close>) and a read past the end of the function table are undefined
  behaviour at run time. User callbacks may call back into the engine without bound, so
  the interpreter of user code below is bounded by a nesting depth; \<open>OutOfFuel\<close> is the
  outcome of a call that needs a deeper nesting than the bound.
\<close>

datatype failure =
    InvalidStateType     \<comment> \<open>\<open>static_assert(valid_state_v<State>, "invalid state type")\<close>\<close>
  | InvalidStateIndex    \<comment> \<open>\<open>static_assert(StateIndex < sizeof...(States), "invalid state index")\<close>\<close>
  | IllFormedGet         \<comment> \<open>\<open>std::get<T>\<close> on a tuple in which \<open>T\<close> does not occur exactly once\<close>
  | NoMatchingCall       \<comment> \<open>a call of \<open>handle\<close> or \<open>enter\<close> that the state class does not accept\<close>
  | Unreachable          \<comment> \<open>\<open>_TINIEST_FSM_UNREACHABLE\<close> executed\<close>
  | OutOfBounds          \<comment> \<open>\<open>f[m_currentState]\<close> read outside \<open>f[s_nStates]\<close>\<close>

datatype 'a outcome = Returns 'a | Fails failure | OutOfFuel

fun and_then :: "'a outcome \<Rightarrow> ('a \<Rightarrow> 'b outcome) \<Rightarrow> 'b outcome" where
  "and_then (Returns x) f = f x"
| "and_then (Fails e) f = Fails e"
| "and_then OutOfFuel f = OutOfFuel"

subsection \<open>Data members of \<open>StateMachine\<close>\<close>

text \<open>
  \<open>unsigned m_currentState\<close> and \<open>std::tuple<States...> m_states\<close>: element \<open>k\<close> of the
  tuple is the instance of the \<open>k\<close>-th type of the pack. \<open>members\<close> stands for the data
  members that the derived class (the host, \<open>FSM = DerivedClass\<close>) adds, such as
  \<open>m_key\<close> of the lockable door. The data of every state instance and of the host has the
  one type \<open>'d\<close>. A default-constructed machine has an indeterminate \<open>m_currentState\<close>:
  any value of the field.
\<close>

record 'd machine =
  m_currentState :: nat
  m_states :: "'d list"
  members :: 'd

subsection \<open>What a call does: the tree of callbacks and index assignments\<close>

text \<open>
  To state which callbacks a call of the engine invokes, and how often, every call
  returns, next to the machine it leaves, the list of what it did itself, in order:
  \<^item> \<open>Transition T\<close>: the assignment \<open>m_currentState = getStateIndex<T>()\<close>;
  \<^item> \<open>EnterCall T self sub\<close>: one call \<open>std::get<T>(m_states).enter(fsm())\<close>, on the
    instance at position \<open>self\<close> of the tuple;
  \<^item> \<open>HandleCall T self ev sub\<close>: one call \<open>std::get<T>(m_states).handle(fsm(), ev)\<close>,
    on the instance at position \<open>self\<close>, with the event \<open>ev\<close>.
  \<open>sub\<close> is what the callback did in turn through the host pointer before it returned.
  The host pointer \<open>fsm()\<close> is \<open>(FSM*)this\<close>: the callback runs on the machine itself.
\<close>

datatype ('t, 'ev) activity =
    Transition 't
  | EnterCall 't nat "('t, 'ev) activity list"
  | HandleCall 't nat 'ev "('t, 'ev) activity list"

primrec transitions :: "('t, 'ev) activity \<Rightarrow> 't list" where
  "transitions (Transition T) = [T]"
| "transitions (EnterCall T self sub) = concat (map transitions sub)"
| "transitions (HandleCall T self ev sub) = concat (map transitions sub)"

text \<open>All index assignments of a list of activities, nested ones included, in time order.\<close>

definition transitions_of :: "('t, 'ev) activity list \<Rightarrow> 't list" where
  "transitions_of acts = concat (map transitions acts)"

subsection \<open>State classes: the user code the engine calls\<close>

text \<open>
  A state class is supplied by the application. Its \<open>handle\<close> and \<open>enter\<close> member
  functions receive the host pointer, through which they can use the public interface of
  the engine and the members of the host:
  \<open>enterState<T>()\<close>, \<open>process(ev)\<close>, \<open>getState<T>()\<close> (a reference they can read and
  assign through), \<open>currentStateId()\<close> and the host's own members. \<open>m_currentState\<close>
  is private. A body is a term of \<open>code\<close>; conditions and written values are functions of
  the machine, which a body can read completely.

  An event is a pair of its static type \<open>'e\<close> and its value \<open>'p\<close>. Which \<open>handle\<close>
  overload a call resolves to depends on the static type alone.
\<close>

datatype ('t, 'e, 'p, 'd) code =
    Skip
  | Seq "('t, 'e, 'p, 'd) code" "('t, 'e, 'p, 'd) code"
  | IfThenElse "'d machine \<Rightarrow> bool" "('t, 'e, 'p, 'd) code" "('t, 'e, 'p, 'd) code"
  | CallEnterState 't                     \<comment> \<open>\<open>fsm->template enterState<T>()\<close>\<close>
  | CallProcess 'e "'d machine \<Rightarrow> 'p"     \<comment> \<open>\<open>fsm->process(E{...})\<close>\<close>
  | WriteState 't "'d machine \<Rightarrow> 'd"      \<comment> \<open>\<open>fsm->template getState<T>() = ...\<close>\<close>
  | WriteMembers "'d machine \<Rightarrow> 'd"       \<comment> \<open>assignment to members of the host\<close>

text \<open>
  \<open>handle C S E\<close> is the body of the \<open>handle\<close> overload of state class \<open>S\<close> that a call
  with an event of type \<open>E\<close> resolves to, as a function of the event value, and \<open>None\<close>
  if the call is not well-formed; \<open>enter C S\<close> likewise for \<open>enter(FSM*)\<close>.
\<close>

record ('t, 'e, 'p, 'd) classes =
  handle :: "'t \<Rightarrow> 'e \<Rightarrow> ('p \<Rightarrow> ('t, 'e, 'p, 'd) code) option"
  enter :: "'t \<Rightarrow> ('t, 'e, 'p, 'd) code option"

type_synonym ('t, 'e, 'p, 'd) run_result =
  "('d machine \<times> ('t, 'e \<times> 'p) activity list) outcome"

text \<open>
  An \<open>invoker\<close> transfers control to a callback body: it runs the body on the machine
  and gives the machine the body leaves and what the body did. The engine's functions
  take it as a parameter; \<open>run\<close> below is the invoker that executes the body.
\<close>

type_synonym ('t, 'e, 'p, 'd) invoker =
  "('t, 'e, 'p, 'd) code \<Rightarrow> 'd machine \<Rightarrow> ('t, 'e, 'p, 'd) run_result"

subsection \<open>The dispatch macros\<close>

text \<open>
  \<open>_TINIEST_FSM_DISPATCH_4(n, X)\<close> expands to \<open>X(n); X(n + 1); X(n + 2); X(n + 3)\<close>,
  and each larger macro to four copies of the next smaller one at offsets.
  The expansion is the list of the expansions of \<open>X\<close>, in order.
\<close>

definition TINIEST_FSM_DISPATCH_4 :: "nat \<Rightarrow> (nat \<Rightarrow> 'a) \<Rightarrow> 'a list" where
  "TINIEST_FSM_DISPATCH_4 n X = [X n, X (n + 1), X (n + 2), X (n + 3)]"

definition TINIEST_FSM_DISPATCH_16 :: "nat \<Rightarrow> (nat \<Rightarrow> 'a) \<Rightarrow> 'a list" where
  "TINIEST_FSM_DISPATCH_16 n X =
     TINIEST_FSM_DISPATCH_4 n X @ TINIEST_FSM_DISPATCH_4 (n + 4) X
     @ TINIEST_FSM_DISPATCH_4 (n + 8) X @ TINIEST_FSM_DISPATCH_4 (n + 12) X"

definition TINIEST_FSM_DISPATCH_64 :: "nat \<Rightarrow> (nat \<Rightarrow> 'a) \<Rightarrow> 'a list" where
  "TINIEST_FSM_DISPATCH_64 n X =
     TINIEST_FSM_DISPATCH_16 n X @ TINIEST_FSM_DISPATCH_16 (n + 16) X
     @ TINIEST_FSM_DISPATCH_16 (n + 32) X @ TINIEST_FSM_DISPATCH_16 (n + 48) X"

definition TINIEST_FSM_DISPATCH_256 :: "nat \<Rightarrow> (nat \<Rightarrow> 'a) \<Rightarrow> 'a list" where
  "TINIEST_FSM_DISPATCH_256 n X =
     TINIEST_FSM_DISPATCH_64 n X @ TINIEST_FSM_DISPATCH_64 (n + 64) X
     @ TINIEST_FSM_DISPATCH_64 (n + 128) X @ TINIEST_FSM_DISPATCH_64 (n + 192) X"

subsection \<open>The class template\<close>

text \<open>
  The \<open>requires\<close> clause of the partial specialisation:
  \<open>are_distinct_v<States...> && std::conjunction_v<std::is_class<States>...>
     && (sizeof...(States) > 0)\<close>. Which types are classes is a parameter.
\<close>

definition StateMachine_requires :: "('t \<Rightarrow> bool) \<Rightarrow> 't list \<Rightarrow> bool" where
  "StateMachine_requires is_class States =
     (are_distinct_v States \<and> list_all is_class States \<and> length States > 0)"

definition valid_state_v :: "'t list \<Rightarrow> 't \<Rightarrow> bool" where
  "valid_state_v States State = elem_in_list_v State States"

text \<open>
  \<open>has_handler_v<State, Event> = requires (State&& s, const Event& ev)
     { s.handle((FSM*)nullptr, ev); }\<close> and, in \<open>enterState\<close>,
  \<open>hasEnter = requires (NewState&& s) { s.enter(fsm()); }\<close>.
\<close>

definition has_handler_v :: "('t, 'e, 'p, 'd) classes \<Rightarrow> 't \<Rightarrow> 'e \<Rightarrow> bool" where
  "has_handler_v C State Event = (handle C State Event \<noteq> None)"

definition hasEnter :: "('t, 'e, 'p, 'd) classes \<Rightarrow> 't \<Rightarrow> bool" where
  "hasEnter C NewState = (enter C NewState \<noteq> None)"

text \<open>
  \<open>std::distance(r.begin(), std::ranges::find(r, v))\<close>: the position of the first element
  equal to \<open>v\<close>, and the length of the range if there is none (\<open>find\<close> returns the end).
\<close>

fun ranges_find :: "'a list \<Rightarrow> 'a \<Rightarrow> nat" where
  "ranges_find [] v = 0"
| "ranges_find (x # xs) v = (if x = v then 0 else Suc (ranges_find xs v))"

text \<open>
  \<open>std::get<T>(t)\<close> of the standard library, for \<open>t\<close> of type \<open>std::tuple<Types...>\<close>:
  a reference to the element of \<open>t\<close> whose type is \<open>T\<close>; the program is ill-formed
  unless \<open>T\<close> occurs exactly once in \<open>Types...\<close>. A reference into the tuple is the
  position of the element.
\<close>

definition std_get :: "'t list \<Rightarrow> 't \<Rightarrow> nat outcome" where
  "std_get Types T =
     (if length (filter (\<lambda>U. U = T) Types) = 1 then Returns (ranges_find Types T)
      else Fails IllFormedGet)"

definition getStateIndex :: "'t list \<Rightarrow> 't \<Rightarrow> nat outcome" where
  "getStateIndex States State =
     (if \<not> valid_state_v States State then Fails InvalidStateType
      else let isIt = map (\<lambda>S. State = S) States in Returns (ranges_find isIt True))"

definition processFromState ::
  "('t, 'e, 'p, 'd) classes \<Rightarrow> 't list \<Rightarrow> ('t, 'e, 'p, 'd) invoker
     \<Rightarrow> 't \<Rightarrow> 'e \<times> 'p \<Rightarrow> 'd machine \<Rightarrow> ('t, 'e, 'p, 'd) run_result" where
  "processFromState C States invoke State ev m =
     (if has_handler_v C State (fst ev) then
        and_then (std_get States State) (\<lambda>self.
          case handle C State (fst ev) of
            None \<Rightarrow> Fails NoMatchingCall
          | Some body \<Rightarrow>
              and_then (invoke (body (snd ev)) m) (\<lambda>(m', sub).
                Returns (m', [HandleCall State self ev sub])))
      else Returns (m, []))"

text \<open>\<open>using State = std::tuple_element_t<StateIndex, std::tuple<States...>>\<close>.\<close>

definition processFromIndex ::
  "('t, 'e, 'p, 'd) classes \<Rightarrow> 't list \<Rightarrow> ('t, 'e, 'p, 'd) invoker
     \<Rightarrow> nat \<Rightarrow> 'e \<times> 'p \<Rightarrow> 'd machine \<Rightarrow> ('t, 'e, 'p, 'd) run_result" where
  "processFromIndex C States invoke StateIndex ev m =
     (if \<not> StateIndex < length States then Fails InvalidStateIndex
      else let State = States ! StateIndex in processFromState C States invoke State ev m)"

definition currentStateId :: "'d machine \<Rightarrow> nat" where
  "currentStateId m = m_currentState m"

text \<open>
  \<open>getState<State>()\<close> returns the reference \<open>std::get<State>(m_states)\<close>; the caller
  reads \<open>m_states m ! r\<close> and assigns to it through the reference \<open>r\<close>.
\<close>

definition getState :: "'t list \<Rightarrow> 't \<Rightarrow> nat outcome" where
  "getState States State =
     (if \<not> valid_state_v States State then Fails InvalidStateType else std_get States State)"

definition enterState ::
  "('t, 'e, 'p, 'd) classes \<Rightarrow> 't list \<Rightarrow> ('t, 'e, 'p, 'd) invoker
     \<Rightarrow> 't \<Rightarrow> 'd machine \<Rightarrow> ('t, 'e, 'p, 'd) run_result" where
  "enterState C States invoke NewState m =
     (if \<not> valid_state_v States NewState then Fails InvalidStateType
      else
        and_then (getStateIndex States NewState) (\<lambda>i.
          let m1 = m\<lparr>m_currentState := i\<rparr> in
          if hasEnter C NewState then
            and_then (std_get States NewState) (\<lambda>self.
              case enter C NewState of
                None \<Rightarrow> Fails NoMatchingCall
              | Some body \<Rightarrow>
                  and_then (invoke body m1) (\<lambda>(m2, sub).
                    Returns (m2, [Transition NewState, EnterCall NewState self sub])))
          else Returns (m1, [Transition NewState])))"

text \<open>
  \<open>_TINIEST_FSM_CASE(n)\<close> is one section of the switch: the label \<open>case (n):\<close> and its
  statements. Under \<open>if constexpr ((n) < s_nStates)\<close> the section calls
  \<open>processFromIndex<(n)>(ev)\<close> and leaves the switch with \<open>break\<close>; otherwise only
  \<open>_TINIEST_FSM_UNREACHABLE\<close> is left in it, which is undefined behaviour with the
  compilers the header knows (GCC, Clang, MSVC). With any other compiler the macro is
  empty, and control would fall through the remaining sections and \<open>default\<close> out of
  the switch; the two agree wherever the index is below the number of states.
\<close>

definition TINIEST_FSM_CASE ::
  "('t, 'e, 'p, 'd) classes \<Rightarrow> 't list \<Rightarrow> ('t, 'e, 'p, 'd) invoker
     \<Rightarrow> 'e \<times> 'p \<Rightarrow> 'd machine \<Rightarrow> nat \<Rightarrow> nat \<times> ('t, 'e, 'p, 'd) run_result" where
  "TINIEST_FSM_CASE C States invoke ev m n =
     (n, if n < length States then processFromIndex C States invoke n ev m
         else Fails Unreachable)"

text \<open>
  \<open>_TINIEST_FSM_DISPATCH_IMPL(dispatcher, n)\<close>:
  \<open>switch (m_currentState) { dispatcher(0, _TINIEST_FSM_CASE); default:
  _TINIEST_FSM_UNREACHABLE; }\<close>. Control goes to the section whose label equals
  \<open>m_currentState\<close>, and to \<open>default\<close> if there is none.
\<close>

definition TINIEST_FSM_DISPATCH_IMPL ::
  "(nat \<Rightarrow> (nat \<Rightarrow> nat \<times> ('t, 'e, 'p, 'd) run_result)
       \<Rightarrow> (nat \<times> ('t, 'e, 'p, 'd) run_result) list)
     \<Rightarrow> ('t, 'e, 'p, 'd) classes \<Rightarrow> 't list \<Rightarrow> ('t, 'e, 'p, 'd) invoker
     \<Rightarrow> 'e \<times> 'p \<Rightarrow> 'd machine \<Rightarrow> ('t, 'e, 'p, 'd) run_result" where
  "TINIEST_FSM_DISPATCH_IMPL dispatcher C States invoke ev m =
     (case map_of (dispatcher 0 (TINIEST_FSM_CASE C States invoke ev m)) (m_currentState m) of
        Some r \<Rightarrow> r
      | None \<Rightarrow> Fails Unreachable)"

text \<open>
  The table of the last branch of \<open>process\<close>:
  \<open>static constexpr process_fun_t f[s_nStates] = { (has_handler_v<States,Event> ?
  &this_t::processFromState<States, Event> : nullptr)... }\<close>; \<open>None\<close> is \<open>nullptr\<close>.
\<close>

definition process_fun_table ::
  "('t, 'e, 'p, 'd) classes \<Rightarrow> 't list \<Rightarrow> ('t, 'e, 'p, 'd) invoker \<Rightarrow> 'e
     \<Rightarrow> ('e \<times> 'p \<Rightarrow> 'd machine \<Rightarrow> ('t, 'e, 'p, 'd) run_result) option list" where
  "process_fun_table C States invoke Event =
     map (\<lambda>S. if has_handler_v C S Event then Some (processFromState C States invoke S)
              else None) States"

text \<open>
  The last branch of \<open>process\<close>:
  \<open>if (f[m_currentState]) std::invoke(f[m_currentState], this, ev)\<close>.
\<close>

definition process_table ::
  "('t, 'e, 'p, 'd) classes \<Rightarrow> 't list \<Rightarrow> ('t, 'e, 'p, 'd) invoker
     \<Rightarrow> 'e \<times> 'p \<Rightarrow> 'd machine \<Rightarrow> ('t, 'e, 'p, 'd) run_result" where
  "process_table C States invoke ev m =
     (let f = process_fun_table C States invoke (fst ev) in
      if \<not> m_currentState m < length f then Fails OutOfBounds
      else case f ! m_currentState m of
             None \<Rightarrow> Returns (m, [])
           | Some g \<Rightarrow> g ev m)"

definition process ::
  "('t, 'e, 'p, 'd) classes \<Rightarrow> 't list \<Rightarrow> ('t, 'e, 'p, 'd) invoker
     \<Rightarrow> 'e \<times> 'p \<Rightarrow> 'd machine \<Rightarrow> ('t, 'e, 'p, 'd) run_result" where
  "process C States invoke ev m =
     (let s_nStates = length States in
      if s_nStates \<le> 4 then
        TINIEST_FSM_DISPATCH_IMPL TINIEST_FSM_DISPATCH_4 C States invoke ev m
      else if s_nStates \<le> 16 then
        TINIEST_FSM_DISPATCH_IMPL TINIEST_FSM_DISPATCH_16 C States invoke ev m
      else if s_nStates \<le> 64 then
        TINIEST_FSM_DISPATCH_IMPL TINIEST_FSM_DISPATCH_64 C States invoke ev m
      else if s_nStates \<le> 256 then
        TINIEST_FSM_DISPATCH_IMPL TINIEST_FSM_DISPATCH_256 C States invoke ev m
      else process_table C States invoke ev m)"

subsection \<open>Running user code\<close>

text \<open>
  \<open>run C States k\<close> executes a callback body; a body that calls \<open>enterState\<close> or
  \<open>process\<close> enters the engine again, which invokes the callbacks of that call with
  \<open>run C States\<close> at the next smaller bound. The application itself calls the engine
  as \<open>enterState C States (run C States k)\<close> and \<open>process C States (run C States k)\<close>.
\<close>

primrec run ::
  "('t, 'e, 'p, 'd) classes \<Rightarrow> 't list \<Rightarrow> nat \<Rightarrow> ('t, 'e, 'p, 'd) invoker" where
  "run C States 0 = (\<lambda>c m. OutOfFuel)"
| "run C States (Suc k) = (\<lambda>c m.
     case c of
       Skip \<Rightarrow> Returns (m, [])
     | Seq a b \<Rightarrow>
         and_then (run C States k a m) (\<lambda>(m1, acts1).
           and_then (run C States k b m1) (\<lambda>(m2, acts2). Returns (m2, acts1 @ acts2)))
     | IfThenElse g a b \<Rightarrow> (if g m then run C States k a m else run C States k b m)
     | CallEnterState T \<Rightarrow> enterState C States (run C States k) T m
     | CallProcess E p \<Rightarrow> process C States (run C States k) (E, p m) m
     | WriteState T f \<Rightarrow>
         and_then (getState States T) (\<lambda>r.
           Returns (m\<lparr>m_states := (m_states m)[r := f m]\<rparr>, []))
     | WriteMembers f \<Rightarrow> Returns (m\<lparr>members := f m\<rparr>, []))"

subsection \<open>The example machines\<close>

text \<open>
  \<open>examples/ex1.cpp\<close>: a door with the states \<open>OpenState\<close> and \<open>CloseState\<close>;
  the second example: a lockable door with the further state \<open>LockedState\<close> and the
  member \<open>m_key\<close> of the host. \<open>OpenEvent\<close> and \<open>CloseEvent\<close> are empty structs;
  \<open>LockEvent\<close> and \<open>UnlockEvent\<close> carry \<open>unsigned key\<close>, the value of the event.
\<close>

datatype door_state = OpenState | CloseState | LockedState

datatype door_event = OpenEvent | CloseEvent | LockEvent | UnlockEvent

fun ex1_handle :: "door_state \<Rightarrow> door_event \<Rightarrow> (nat \<Rightarrow> (door_state, door_event, nat, nat) code) option" where
  "ex1_handle OpenState CloseEvent = Some (\<lambda>ev. CallEnterState CloseState)"
| "ex1_handle CloseState OpenEvent = Some (\<lambda>ev. CallEnterState OpenState)"
| "ex1_handle S E = None"

definition ex1_classes :: "(door_state, door_event, nat, nat) classes" where
  "ex1_classes = \<lparr>handle = ex1_handle, enter = (\<lambda>S. None)\<rparr>"

text \<open>\<open>struct Door : StateMachine<Door, std::tuple<OpenState, CloseState>>\<close>.\<close>

definition Door :: "door_state list" where
  "Door = [OpenState, CloseState]"

fun ex2_handle :: "door_state \<Rightarrow> door_event \<Rightarrow> (nat \<Rightarrow> (door_state, door_event, nat, nat) code) option" where
  "ex2_handle OpenState CloseEvent = Some (\<lambda>ev. CallEnterState CloseState)"
| "ex2_handle CloseState OpenEvent = Some (\<lambda>ev. CallEnterState OpenState)"
| "ex2_handle CloseState LockEvent =
     Some (\<lambda>key. IfThenElse (\<lambda>door. key = members door) (CallEnterState LockedState) Skip)"
| "ex2_handle LockedState UnlockEvent =
     Some (\<lambda>key. IfThenElse (\<lambda>door. key = members door) (CallEnterState CloseState) Skip)"
| "ex2_handle S E = None"

definition ex2_classes :: "(door_state, door_event, nat, nat) classes" where
  "ex2_classes = \<lparr>handle = ex2_handle, enter = (\<lambda>S. None)\<rparr>"

text \<open>
  \<open>struct MyFSM : StateMachine<MyFSM, std::tuple<OpenState, CloseState, LockedState>>\<close>,
  constructed as \<open>MyFSM fsm{123u}\<close>; the constructor leaves \<open>m_currentState\<close>
  uninitialised, \<open>idx\<close> is the value it happens to have.
\<close>

definition MyFSM :: "door_state list" where
  "MyFSM = [OpenState, CloseState, LockedState]"

definition MyFSM_ctor :: "nat \<Rightarrow> nat \<Rightarrow> nat machine" where
  "MyFSM_ctor key idx = \<lparr>m_currentState = idx, m_states = [0, 0, 0], members = key\<rparr>"

text \<open>
  A machine whose first state has an enter hook that moves on at once:
  \<open>struct Booting { static void enter(auto* fsm) { fsm->template enterState<Ready>(); } };
  struct Ready { static void enter(auto* fsm) {} };
  struct Boot : StateMachine<Boot, std::tuple<Booting, Ready>> {};\<close>
\<close>

datatype boot_state = Booting | Ready

fun boot_enter :: "boot_state \<Rightarrow> (boot_state, unit, unit, unit) code option" where
  "boot_enter Booting = Some (CallEnterState Ready)"
| "boot_enter Ready = Some Skip"

definition boot_classes :: "(boot_state, unit, unit, unit) classes" where
  "boot_classes = \<lparr>handle = (\<lambda>S E. None), enter = boot_enter\<rparr>"

definition Boot :: "boot_state list" where
  "Boot = [Booting, Ready]"

definition Boot_ctor :: "nat \<Rightarrow> unit machine" where
  "Boot_ctor idx = \<lparr>m_currentState = idx, m_states = [(), ()], members = ()\<rparr>"

text \<open>
  A machine whose handler enters a state with an enter hook that moves on at once:
  \<open>struct Go {};
  struct Idle { static void handle(auto* fsm, const Go&)
                  { fsm->template enterState<Starting>(); } };
  struct Starting { static void enter(auto* fsm) { fsm->template enterState<Running>(); } };
  struct Running {};
  struct Chain : StateMachine<Chain, std::tuple<Idle, Starting, Running>> {};\<close>
\<close>

datatype chain_state = Idle | Starting | Running

fun chain_go :: "unit \<Rightarrow> (chain_state, unit, unit, unit) code" where
  "chain_go ev = CallEnterState Starting"

fun chain_handle :: "chain_state \<Rightarrow> unit \<Rightarrow> (unit \<Rightarrow> (chain_state, unit, unit, unit) code) option" where
  "chain_handle Idle E = Some chain_go"
| "chain_handle S E = None"

fun chain_enter :: "chain_state \<Rightarrow> (chain_state, unit, unit, unit) code option" where
  "chain_enter Starting = Some (CallEnterState Running)"
| "chain_enter S = None"

definition chain_classes :: "(chain_state, unit, unit, unit) classes" where
  "chain_classes = \<lparr>handle = chain_handle, enter = chain_enter\<rparr>"

definition Chain :: "chain_state list" where
  "Chain = [Idle, Starting, Running]"

definition Chain_ctor :: "nat \<Rightarrow> unit machine" where
  "Chain_ctor idx = \<lparr>m_currentState = idx, m_states = [(), (), ()], members = ()\<rparr>"

definition every_type_is_class :: "'t \<Rightarrow> bool" where
  "every_type_is_class T = True"

text \<open>
  A machine with 300 states, the types \<open>0\<close> to \<open>299\<close>, for the branch of \<open>process\<close>
  that uses the function table. Only the last state handles the one event type, and
  its handler enters the first state.
\<close>

definition big_classes :: "(nat, unit, unit, unit) classes" where
  "big_classes = \<lparr>handle = (\<lambda>S E. if S = 299 then Some (\<lambda>ev. CallEnterState 0) else None),
      enter = (\<lambda>S. None)\<rparr>"

definition Big :: "nat list" where
  "Big = [0 ..< 300]"

definition Big_ctor :: "nat \<Rightarrow> unit machine" where
  "Big_ctor idx = \<lparr>m_currentState = idx, m_states = replicate 300 (), members = ()\<rparr>"

subsection \<open>Auxiliary notions for the proofs\<close>

text \<open>
  \<open>replay States i Ts\<close> is the index after the assignments
  \<open>m_currentState = getStateIndex<T>()\<close> for the types \<open>Ts\<close>, in order, from the
  index \<open>i\<close>. A result is \<open>tracked\<close> if the index it leaves is the one its transitions
  give, all of them to types of the pack, and if, from a valid index, it is neither of
  the two kinds of undefined behaviour nor an invalid state index. An invoker is
  \<open>tracking\<close> if all its results are tracked.
\<close>

definition replay :: "'t list \<Rightarrow> nat \<Rightarrow> 't list \<Rightarrow> nat" where
  "replay States i Ts = foldl (\<lambda>j T. ranges_find States T) i Ts"

definition tracked :: "'t list \<Rightarrow> 'd machine \<Rightarrow> ('t, 'e, 'p, 'd) run_result \<Rightarrow> bool" where
  "tracked States m r =
     (case r of
        Returns (m', acts) \<Rightarrow>
          set (transitions_of acts) \<subseteq> set States
          \<and> m_currentState m' = replay States (m_currentState m) (transitions_of acts)
      | Fails e \<Rightarrow> m_currentState m < length States \<longrightarrow> e \<noteq> Unreachable \<and> e \<noteq> OutOfBounds \<and> e \<noteq> InvalidStateIndex
      | OutOfFuel \<Rightarrow> True)"

definition tracking :: "'t list \<Rightarrow> ('t, 'e, 'p, 'd) invoker \<Rightarrow> bool" where
  "tracking States invoke = (\<forall>c m. tracked States m (invoke c m))"

text \<open>
  The discipline of the index between the machine a call starts on and a result: if the
  call returned and performed no transition, the index is unchanged; if it performed
  transitions, the index is the position of the target of the last one; and an index
  below the number of states stays below it.
\<close>

definition index_discipline ::
  "'t list \<Rightarrow> 'd machine \<Rightarrow> ('t, 'e, 'p, 'd) run_result \<Rightarrow> bool" where
  "index_discipline States m r =
     (case r of
        Returns (m', acts) \<Rightarrow>
          (transitions_of acts = [] \<longrightarrow> currentStateId m' = currentStateId m)
          \<and> (transitions_of acts \<noteq> [] \<longrightarrow>
                getStateIndex States (last (transitions_of acts)) = Returns (currentStateId m'))
          \<and> (currentStateId m < length States \<longrightarrow> currentStateId m' < length States)
      | Fails e \<Rightarrow> True
      | OutOfFuel \<Rightarrow> True)"

text \<open>
  One invoker \<open>extends\<close> another if it gives the same outcome wherever the other one gives
  an outcome within its bound.
\<close>

definition extends :: "('t, 'e, 'p, 'd) invoker \<Rightarrow> ('t, 'e, 'p, 'd) invoker \<Rightarrow> bool" where
  "extends invoke' invoke = (\<forall>c m. invoke c m \<noteq> OutOfFuel \<longrightarrow> invoke' c m = invoke c m)"

subsection \<open>Facts about the type-list utilities\<close>

lemma foldl_or_absorb: "foldl (\<lambda>acc T. acc \<or> P T) b xs = (b \<or> (\<exists>x \<in> set xs. P x))"
  by (induction xs arbitrary: b) auto

lemma foldl_and_absorb: "foldl (\<lambda>acc T. acc \<and> P T) b xs = (b \<and> (\<forall>x \<in> set xs. P x))"
  by (induction xs arbitrary: b) auto

lemma foldl_count_shift:
  "foldl (\<lambda>acc T. acc + (if P T then 1 else 0)) (k::nat) xs = k + length (filter P xs)"
  by (induction xs arbitrary: k) auto

lemma elem_in_list_v_set: "elem_in_list_v Elem List = (Elem \<in> set List)"
  unfolding elem_in_list_v_def by (simp add: foldl_or_absorb)

lemma count_in_list_v_filter: "count_in_list_v Elem List = length (filter (\<lambda>T. Elem = T) List)"
  unfolding count_in_list_v_def by (simp add: foldl_count_shift)

lemma are_distinct_v_all: "are_distinct_v Ts = (\<forall>T \<in> set Ts. count_in_list_v T Ts = 1)"
  unfolding are_distinct_v_def by (simp add: foldl_and_absorb)

lemma filter_positions_length:
  "length (filter (\<lambda>i. xs ! i = e) [0 ..< length xs]) = length (filter (\<lambda>T. e = T) xs)"
proof (induction xs rule: rev_induct)
  case Nil
  show ?case by simp
next
  case (snoc x xs)
  have "filter (\<lambda>i. (xs @ [x]) ! i = e) [0 ..< length xs]
        = filter (\<lambda>i. xs ! i = e) [0 ..< length xs]"
    by (rule filter_cong) (auto simp: nth_append)
  with snoc show ?case by (auto simp: nth_append)
qed

lemma spec_countOccurrences_filter:
  "spec_countOccurrences Elem List = length (filter (\<lambda>T. Elem = T) List)"
  unfolding spec_countOccurrences_def by (rule filter_positions_length)

lemma filter_eq_length_one_distinct:
  "(\<forall>T \<in> set Ts. length (filter (\<lambda>U. T = U) Ts) = 1) = distinct Ts"
proof (induction Ts)
  case Nil
  show ?case by simp
next
  case (Cons a Ts)
  have notin: "a \<notin> set Ts \<Longrightarrow> filter (\<lambda>U. a = U) Ts = []"
    by (induction Ts) auto
  have isin: "a \<in> set Ts \<Longrightarrow> filter (\<lambda>U. a = U) Ts \<noteq> []"
    by (induction Ts) auto
  show ?case
  proof (cases "a \<in> set Ts")
    case True
    with isin show ?thesis by auto
  next
    case False
    have "(\<forall>T \<in> set Ts. length (filter (\<lambda>U. T = U) (a # Ts)) = 1)
          = (\<forall>T \<in> set Ts. length (filter (\<lambda>U. T = U) Ts) = 1)"
      using False by auto
    with False notin Cons show ?thesis by auto
  qed
qed

lemma are_distinct_v_distinct: "are_distinct_v Ts = distinct Ts"
  using filter_eq_length_one_distinct [of Ts]
  by (simp add: are_distinct_v_all count_in_list_v_filter)

subsection \<open>Positions in the pack\<close>

lemma ranges_find_mem: "x \<in> set xs \<Longrightarrow> ranges_find xs x < length xs \<and> xs ! ranges_find xs x = x"
  by (induction xs) auto

lemma ranges_find_isIt: "ranges_find (map (\<lambda>S. T = S) States) True = ranges_find States T"
  by (induction States) auto

lemma ranges_find_nth: "distinct xs \<Longrightarrow> i < length xs \<Longrightarrow> ranges_find xs (xs ! i) = i"
  by (induction xs arbitrary: i) (auto simp: nth_Cons split: nat.splits)

lemma filter_eq_one_distinct: "distinct xs \<Longrightarrow> x \<in> set xs \<Longrightarrow> length (filter (\<lambda>U. U = x) xs) = 1"
  by (induction xs) (auto simp: filter_empty_conv)

lemma std_get_distinct:
  "distinct Types \<Longrightarrow> T \<in> set Types \<Longrightarrow> std_get Types T = Returns (ranges_find Types T)"
  by (simp add: std_get_def filter_eq_one_distinct)

lemma getStateIndex_mem:
  "T \<in> set States \<Longrightarrow> getStateIndex States T = Returns (ranges_find States T)"
  by (simp add: getStateIndex_def valid_state_v_def elem_in_list_v_set ranges_find_isIt)

lemma getStateIndex_Returns:
  "getStateIndex States T = Returns i \<Longrightarrow> T \<in> set States \<and> i = ranges_find States T"
  by (auto simp add: getStateIndex_def valid_state_v_def elem_in_list_v_set ranges_find_isIt split: if_splits)

lemma map_of_D4:
  assumes "\<And>k. fst (X k) = k"
  shows "map_of (TINIEST_FSM_DISPATCH_4 n X) i = (if n \<le> i \<and> i < n + 4 then Some (snd (X i)) else None)"
proof -
  have X: "\<And>k. X k = (k, snd (X k))" using assms by (metis prod.collapse)
  have "map_of [(n, snd (X n)), (n+1, snd (X (n+1))), (n+2, snd (X (n+2))), (n+3, snd (X (n+3)))] i
      = (if n \<le> i \<and> i < n + 4 then Some (snd (X i)) else None)"
    by (auto simp: numeral_eq_Suc less_Suc_eq_le le_Suc_eq)
  then show ?thesis unfolding TINIEST_FSM_DISPATCH_4_def using X by metis
qed

subsection \<open>The switch and the table reach the state at the current index\<close>

lemma map_of_D16:
  assumes "\<And>k. fst (X k) = k"
  shows "map_of (TINIEST_FSM_DISPATCH_16 n X) i = (if n \<le> i \<and> i < n + 16 then Some (snd (X i)) else None)"
  unfolding TINIEST_FSM_DISPATCH_16_def
  by (simp add: map_of_append map_add_def map_of_D4 [OF assms])

lemma map_of_D64:
  assumes "\<And>k. fst (X k) = k"
  shows "map_of (TINIEST_FSM_DISPATCH_64 n X) i = (if n \<le> i \<and> i < n + 64 then Some (snd (X i)) else None)"
  unfolding TINIEST_FSM_DISPATCH_64_def
  by (simp add: map_of_append map_add_def map_of_D16 [OF assms])

lemma map_of_D256:
  assumes "\<And>k. fst (X k) = k"
  shows "map_of (TINIEST_FSM_DISPATCH_256 n X) i = (if n \<le> i \<and> i < n + 256 then Some (snd (X i)) else None)"
  unfolding TINIEST_FSM_DISPATCH_256_def
  by (simp add: map_of_append map_add_def map_of_D64 [OF assms])

lemma fst_CASE: "fst (TINIEST_FSM_CASE C States invoke ev m k) = k"
  by (simp add: TINIEST_FSM_CASE_def)

lemma processFromIndex_valid:
  "i < length States \<Longrightarrow>
   processFromIndex C States invoke i ev m = processFromState C States invoke (States ! i) ev m"
  by (simp add: processFromIndex_def)

lemma switch_4_valid:
  "m_currentState m < length States \<Longrightarrow> length States \<le> 4 \<Longrightarrow>
   TINIEST_FSM_DISPATCH_IMPL TINIEST_FSM_DISPATCH_4 C States invoke ev m
     = processFromIndex C States invoke (m_currentState m) ev m"
  by (simp add: TINIEST_FSM_DISPATCH_IMPL_def map_of_D4 [OF fst_CASE] TINIEST_FSM_CASE_def)

lemma switch_16_valid:
  "m_currentState m < length States \<Longrightarrow> length States \<le> 16 \<Longrightarrow>
   TINIEST_FSM_DISPATCH_IMPL TINIEST_FSM_DISPATCH_16 C States invoke ev m
     = processFromIndex C States invoke (m_currentState m) ev m"
  by (simp add: TINIEST_FSM_DISPATCH_IMPL_def map_of_D16 [OF fst_CASE] TINIEST_FSM_CASE_def)

lemma switch_64_valid:
  "m_currentState m < length States \<Longrightarrow> length States \<le> 64 \<Longrightarrow>
   TINIEST_FSM_DISPATCH_IMPL TINIEST_FSM_DISPATCH_64 C States invoke ev m
     = processFromIndex C States invoke (m_currentState m) ev m"
  by (simp add: TINIEST_FSM_DISPATCH_IMPL_def map_of_D64 [OF fst_CASE] TINIEST_FSM_CASE_def)

lemma switch_256_valid:
  "m_currentState m < length States \<Longrightarrow> length States \<le> 256 \<Longrightarrow>
   TINIEST_FSM_DISPATCH_IMPL TINIEST_FSM_DISPATCH_256 C States invoke ev m
     = processFromIndex C States invoke (m_currentState m) ev m"
  by (simp add: TINIEST_FSM_DISPATCH_IMPL_def map_of_D256 [OF fst_CASE] TINIEST_FSM_CASE_def)

lemma process_table_valid:
  "m_currentState m < length States \<Longrightarrow>
   process_table C States invoke ev m
     = processFromState C States invoke (States ! m_currentState m) ev m"
  by (simp add: process_table_def process_fun_table_def processFromState_def)

lemma process_valid:
  "m_currentState m < length States \<Longrightarrow>
   process C States invoke ev m
     = processFromState C States invoke (States ! m_currentState m) ev m"
  by (simp add: process_def Let_def switch_4_valid switch_16_valid switch_64_valid switch_256_valid
      process_table_valid processFromIndex_valid)

lemma switch_invalid:
  assumes "\<not> m_currentState m < length States"
    and "\<And>X i. (\<And>k. fst (X k) = k) \<Longrightarrow> map_of (dispatcher 0 X) i = (if i < b then Some (snd (X i)) else None)"
  shows "TINIEST_FSM_DISPATCH_IMPL dispatcher C States invoke ev m = Fails Unreachable"
  using assms(1) by (simp add: TINIEST_FSM_DISPATCH_IMPL_def assms(2) [OF fst_CASE] TINIEST_FSM_CASE_def)

lemma process_invalid:
  "\<not> m_currentState m < length States \<Longrightarrow>
   process C States invoke ev m = (if length States \<le> 256 then Fails Unreachable else Fails OutOfBounds)"
  by (simp add: process_def Let_def switch_invalid [where b = 4] switch_invalid [where b = 16]
      switch_invalid [where b = 64] switch_invalid [where b = 256]
      map_of_D4 map_of_D16 map_of_D64 map_of_D256
      process_table_def process_fun_table_def)

subsection \<open>The index follows the transitions\<close>

lemma replay_Nil: "replay States i [] = i"
  by (simp add: replay_def)

lemma replay_append: "replay States i (xs @ ys) = replay States (replay States i xs) ys"
  by (simp add: replay_def)

lemma replay_last: "Ts \<noteq> [] \<Longrightarrow> replay States i Ts = ranges_find States (last Ts)"
  by (induction Ts arbitrary: i) (auto simp: replay_def)

lemma replay_valid:
  assumes "i < length States" and "set Ts \<subseteq> set States"
  shows "replay States i Ts < length States"
proof (cases "Ts = []")
  case True
  with assms show ?thesis by (simp add: replay_Nil)
next
  case False
  with assms have "last Ts \<in> set States" using last_in_set [of Ts] by auto
  with False show ?thesis by (simp add: replay_last ranges_find_mem)
qed

lemma transitions_of_simps:
  "transitions_of [] = []"
  "transitions_of (a # acts) = transitions a @ transitions_of acts"
  "transitions_of (xs @ ys) = transitions_of xs @ transitions_of ys"
  by (simp_all add: transitions_of_def)

lemma transitions_sub:
  "transitions (EnterCall T self sub) = transitions_of sub"
  "transitions (HandleCall T self ev sub) = transitions_of sub"
  by (simp_all add: transitions_of_def)

declare transitions.simps(2) [simp del]
declare transitions.simps(3) [simp del]

lemma tracked_processFromState:
  assumes "tracking States invoke"
  shows "tracked States m (processFromState C States invoke S ev m)"
proof (cases "has_handler_v C S (fst ev)")
  case False
  then show ?thesis
    by (simp add: processFromState_def tracked_def transitions_of_simps replay_Nil)
next
  case True
  then obtain body where body: "handle C S (fst ev) = Some body"
    by (auto simp: has_handler_v_def)
  have inv: "tracked States m (invoke (body (snd ev)) m)"
    using assms by (simp add: tracking_def)
  show ?thesis
  proof (cases "std_get States S")
    case (Returns self)
    with True body inv show ?thesis
      by (cases "invoke (body (snd ev)) m")
        (auto simp: processFromState_def tracked_def transitions_of_simps transitions_sub)
  next
    case (Fails e)
    with True show ?thesis
      by (auto simp: processFromState_def tracked_def std_get_def split: if_splits)
  next
    case OutOfFuel
    with True show ?thesis by (simp add: processFromState_def tracked_def)
  qed
qed

lemma tracked_process:
  assumes "tracking States invoke"
  shows "tracked States m (process C States invoke ev m)"
proof (cases "m_currentState m < length States")
  case True
  then show ?thesis by (simp add: process_valid tracked_processFromState [OF assms])
next
  case False
  then show ?thesis by (simp add: process_invalid tracked_def)
qed

lemma tracked_enterState:
  assumes "tracking States invoke"
  shows "tracked States m (enterState C States invoke T m)"
proof (cases "T \<in> set States")
  case False
  then show ?thesis
    by (simp add: enterState_def valid_state_v_def elem_in_list_v_set tracked_def)
next
  case mem: True
  let ?m1 = "m\<lparr>m_currentState := ranges_find States T\<rparr>"
  show ?thesis
  proof (cases "enter C T")
    case None
    with mem show ?thesis
      by (simp add: enterState_def valid_state_v_def elem_in_list_v_set getStateIndex_mem
          hasEnter_def tracked_def transitions_of_simps replay_def)
  next
    case (Some body)
    have inv: "tracked States ?m1 (invoke body ?m1)"
      using assms by (simp add: tracking_def)
    have valid1: "m_currentState ?m1 < length States"
      using mem by (simp add: ranges_find_mem)
    show ?thesis
    proof (cases "std_get States T")
      case (Returns self)
      show ?thesis
      proof (cases "invoke body ?m1")
        case (Returns r)
        obtain m2 sub where r: "r = (m2, sub)" by (cases r)
        from inv Returns r have sub: "set (transitions_of sub) \<subseteq> set States"
          and idx: "m_currentState m2 = replay States (ranges_find States T) (transitions_of sub)"
          by (simp_all add: tracked_def)
        have "replay States (m_currentState m) (T # transitions_of sub)
              = replay States (ranges_find States T) (transitions_of sub)"
          by (simp add: replay_def)
        with mem Some \<open>std_get States T = Returns self\<close> Returns r sub idx show ?thesis
          by (simp add: enterState_def valid_state_v_def elem_in_list_v_set getStateIndex_mem
              hasEnter_def tracked_def transitions_of_simps transitions_sub)
      next
        case (Fails e)
        with inv valid1 have "e \<noteq> Unreachable \<and> e \<noteq> OutOfBounds \<and> e \<noteq> InvalidStateIndex"
          by (simp add: tracked_def)
        with mem Some \<open>std_get States T = Returns self\<close> Fails show ?thesis
          by (simp add: enterState_def valid_state_v_def elem_in_list_v_set getStateIndex_mem
              hasEnter_def tracked_def)
      next
        case OutOfFuel
        with mem Some \<open>std_get States T = Returns self\<close> show ?thesis
          by (simp add: enterState_def valid_state_v_def elem_in_list_v_set getStateIndex_mem
              hasEnter_def tracked_def)
      qed
    next
      case (Fails e)
      then have "e = IllFormedGet" by (auto simp: std_get_def split: if_splits)
      with mem Some Fails show ?thesis
        by (simp add: enterState_def valid_state_v_def elem_in_list_v_set getStateIndex_mem
            hasEnter_def tracked_def)
    next
      case OutOfFuel
      then show ?thesis by (auto simp: std_get_def split: if_splits)
    qed
  qed
qed

lemma tracked_Seq:
  assumes a: "\<And>m. tracked States m (ra m)" and b: "\<And>m. tracked States m (rb m)"
  shows "tracked States m
           (and_then (ra m) (\<lambda>(m1, acts1).
              and_then (rb m1) (\<lambda>(m2, acts2). Returns (m2, acts1 @ acts2))))"
proof (cases "ra m")
  case (Returns r1)
  obtain m1 acts1 where r1: "r1 = (m1, acts1)" by (cases r1)
  from a [of m] Returns r1 have sub1: "set (transitions_of acts1) \<subseteq> set States"
    and idx1: "m_currentState m1 = replay States (m_currentState m) (transitions_of acts1)"
    by (simp_all add: tracked_def)
  show ?thesis
  proof (cases "rb m1")
    case inner: (Returns r2)
    obtain m2 acts2 where r2: "r2 = (m2, acts2)" by (cases r2)
    from b [of m1] inner r2 have "set (transitions_of acts2) \<subseteq> set States"
      and "m_currentState m2 = replay States (m_currentState m1) (transitions_of acts2)"
      by (simp_all add: tracked_def)
    with Returns r1 inner r2 sub1 idx1 show ?thesis
      by (simp add: tracked_def transitions_of_simps replay_append)
  next
    case (Fails e)
    have "m_currentState m < length States \<Longrightarrow> m_currentState m1 < length States"
      using idx1 sub1 by (simp add: replay_valid)
    with b [of m1] Fails Returns r1 show ?thesis
      by (auto simp: tracked_def)
  next
    case OutOfFuel
    with Returns r1 show ?thesis by (simp add: tracked_def)
  qed
next
  case (Fails e)
  with a [of m] show ?thesis by (simp add: tracked_def)
next
  case OutOfFuel
  then show ?thesis by (simp add: tracked_def)
qed

lemma getState_Fails: "getState States T = Fails e \<Longrightarrow> e = InvalidStateType \<or> e = IllFormedGet"
  by (auto simp: getState_def std_get_def split: if_splits)

lemma getState_not_OutOfFuel: "getState States T \<noteq> OutOfFuel"
  by (auto simp: getState_def std_get_def split: if_splits)

lemma tracking_run: "tracking States (run C States k)"
proof (induction k)
  case 0
  show ?case by (simp add: tracking_def tracked_def)
next
  case (Suc k)
  have IH: "\<And>c m. tracked States m (run C States k c m)"
    using Suc by (simp add: tracking_def)
  have "tracked States m (run C States (Suc k) c m)" for c m
  proof (cases c)
    case Skip
    then show ?thesis by (simp add: tracked_def transitions_of_simps replay_Nil)
  next
    case (Seq a b)
    have "tracked States m
           (and_then (run C States k a m) (\<lambda>(m1, acts1).
              and_then (run C States k b m1) (\<lambda>(m2, acts2). Returns (m2, acts1 @ acts2))))"
      by (rule tracked_Seq) (rule IH)+
    with Seq show ?thesis by simp
  next
    case (IfThenElse g a b)
    then show ?thesis by (simp add: IH)
  next
    case (CallEnterState T)
    then show ?thesis by (simp add: tracked_enterState [OF Suc])
  next
    case (CallProcess E p)
    then show ?thesis by (simp add: tracked_process [OF Suc])
  next
    case (WriteState T f)
    show ?thesis
    proof (cases "getState States T")
      case (Returns r)
      with WriteState show ?thesis by (simp add: tracked_def transitions_of_simps replay_Nil)
    next
      case (Fails e)
      with WriteState getState_Fails [OF Fails] show ?thesis by (auto simp: tracked_def)
    next
      case OutOfFuel
      with getState_not_OutOfFuel [of States T] show ?thesis by simp
    qed
  next
    case (WriteMembers f)
    then show ?thesis by (simp add: tracked_def transitions_of_simps replay_Nil)
  qed
  then show ?case by (simp add: tracking_def)
qed

subsection \<open>The callback of the state at the current index\<close>

lemma requires_distinct: "StateMachine_requires is_class States \<Longrightarrow> distinct States"
  by (simp add: StateMachine_requires_def are_distinct_v_distinct)

lemma std_get_nth:
  "distinct States \<Longrightarrow> i < length States \<Longrightarrow> std_get States (States ! i) = Returns i"
  by (simp add: std_get_distinct ranges_find_nth)

lemma processFromState_handler:
  assumes "distinct States" and "i < length States" and "handle C (States ! i) E = Some body"
  shows "processFromState C States invoke (States ! i) (E, p) m =
           and_then (invoke (body p) m) (\<lambda>(m', sub).
             Returns (m', [HandleCall (States ! i) i (E, p) sub]))"
  using assms by (simp add: processFromState_def has_handler_v_def std_get_nth)

lemma processFromState_no_handler:
  "\<not> has_handler_v C S (fst ev) \<Longrightarrow> processFromState C States invoke S ev m = Returns (m, [])"
  by (simp add: processFromState_def)

subsection \<open>What a returning call of \<open>enterState\<close> and \<open>process\<close> did\<close>

lemma enterState_Returns:
  assumes "enterState C States invoke X m = Returns (m', acts)"
  shows "X \<in> set States"
    and "\<exists>rest. acts = Transition X # rest"
    and "\<not> hasEnter C X \<Longrightarrow> acts = [Transition X]"
proof -
  show mem: "X \<in> set States"
    using assms by (auto simp: enterState_def valid_state_v_def elem_in_list_v_set split: if_splits)
  let ?m1 = "m\<lparr>m_currentState := ranges_find States X\<rparr>"
  show "\<not> hasEnter C X \<Longrightarrow> acts = [Transition X]"
    using assms mem
    by (simp add: enterState_def valid_state_v_def elem_in_list_v_set getStateIndex_mem)
  show "\<exists>rest. acts = Transition X # rest"
  proof (cases "enter C X")
    case None
    with assms mem show ?thesis
      by (auto simp: enterState_def valid_state_v_def elem_in_list_v_set getStateIndex_mem
          hasEnter_def)
  next
    case (Some body)
    with assms mem show ?thesis
      by (cases "std_get States X"; cases "invoke body ?m1")
        (auto simp: enterState_def valid_state_v_def elem_in_list_v_set getStateIndex_mem
          hasEnter_def)
  qed
qed

lemma tracked_Returns:
  assumes "tracked States m (Returns (m', acts))"
  shows "set (transitions_of acts) \<subseteq> set States"
    and "transitions_of acts = [] \<Longrightarrow> m_currentState m' = m_currentState m"
    and "transitions_of acts \<noteq> [] \<Longrightarrow>
           last (transitions_of acts) \<in> set States
           \<and> getStateIndex States (last (transitions_of acts)) = Returns (m_currentState m')"
    and "m_currentState m < length States \<Longrightarrow> m_currentState m' < length States"
proof -
  from assms have sub: "set (transitions_of acts) \<subseteq> set States"
    and idx: "m_currentState m' = replay States (m_currentState m) (transitions_of acts)"
    by (simp_all add: tracked_def)
  show "set (transitions_of acts) \<subseteq> set States" by (rule sub)
  show "transitions_of acts = [] \<Longrightarrow> m_currentState m' = m_currentState m"
    using idx by (simp add: replay_Nil)
  show "m_currentState m < length States \<Longrightarrow> m_currentState m' < length States"
    using idx sub by (simp add: replay_valid)
  assume ne: "transitions_of acts \<noteq> []"
  then have "last (transitions_of acts) \<in> set States"
    using sub last_in_set [of "transitions_of acts"] by auto
  with ne idx show "last (transitions_of acts) \<in> set States
           \<and> getStateIndex States (last (transitions_of acts)) = Returns (m_currentState m')"
    by (simp add: replay_last getStateIndex_mem)
qed

lemma position_unique:
  "distinct States \<Longrightarrow> j < length States \<Longrightarrow> States ! j = X \<Longrightarrow> j = ranges_find States X"
  using ranges_find_nth [of States j] by simp

lemma tracked_index_discipline: "tracked States m r \<Longrightarrow> index_discipline States m r"
proof (cases r)
  case (Returns x)
  obtain m' acts where x: "x = (m', acts)" by (cases x)
  assume "tracked States m r"
  with Returns x have tr: "tracked States m (Returns (m', acts))" by simp
  from tracked_Returns(2-4) [OF tr] Returns x show ?thesis
    by (simp add: index_discipline_def currentStateId_def)
qed (simp_all add: index_discipline_def)

subsection \<open>A deeper bound changes no outcome\<close>

lemma and_then_OutOfFuel: "and_then x f \<noteq> OutOfFuel \<Longrightarrow> x \<noteq> OutOfFuel"
  by (cases x) auto

lemma extends_processFromState:
  assumes "extends invoke' invoke"
    and "processFromState C States invoke S ev m \<noteq> OutOfFuel"
  shows "processFromState C States invoke' S ev m = processFromState C States invoke S ev m"
proof (cases "handle C S (fst ev)")
  case None
  then show ?thesis by (simp add: processFromState_def has_handler_v_def)
next
  case (Some body)
  show ?thesis
  proof (cases "std_get States S")
    case (Returns self)
    with Some assms(2) have "invoke (body (snd ev)) m \<noteq> OutOfFuel"
      by (auto simp: processFromState_def has_handler_v_def dest: and_then_OutOfFuel)
    with assms(1) have "invoke' (body (snd ev)) m = invoke (body (snd ev)) m"
      by (simp add: extends_def)
    with Some Returns show ?thesis by (simp add: processFromState_def has_handler_v_def)
  qed (simp_all add: processFromState_def)
qed

lemma extends_process:
  assumes "extends invoke' invoke"
    and "process C States invoke ev m \<noteq> OutOfFuel"
  shows "process C States invoke' ev m = process C States invoke ev m"
proof (cases "m_currentState m < length States")
  case True
  with assms show ?thesis by (simp add: process_valid extends_processFromState)
next
  case False
  then show ?thesis by (simp add: process_invalid)
qed

lemma extends_enterState:
  assumes "extends invoke' invoke"
    and "enterState C States invoke X m \<noteq> OutOfFuel"
  shows "enterState C States invoke' X m = enterState C States invoke X m"
proof (cases "X \<in> set States")
  case False
  then show ?thesis by (simp add: enterState_def valid_state_v_def elem_in_list_v_set)
next
  case mem: True
  let ?m1 = "m\<lparr>m_currentState := ranges_find States X\<rparr>"
  show ?thesis
  proof (cases "enter C X")
    case None
    with mem show ?thesis
      by (simp add: enterState_def valid_state_v_def elem_in_list_v_set getStateIndex_mem
          hasEnter_def)
  next
    case (Some body)
    show ?thesis
    proof (cases "std_get States X")
      case (Returns self)
      with Some mem assms(2) have "invoke body ?m1 \<noteq> OutOfFuel"
        by (auto simp: enterState_def valid_state_v_def elem_in_list_v_set getStateIndex_mem
            hasEnter_def dest: and_then_OutOfFuel)
      with assms(1) have "invoke' body ?m1 = invoke body ?m1"
        by (simp add: extends_def)
      with Some Returns mem show ?thesis
        by (simp add: enterState_def valid_state_v_def elem_in_list_v_set getStateIndex_mem
            hasEnter_def)
    qed (simp_all add: enterState_def valid_state_v_def elem_in_list_v_set getStateIndex_mem
          hasEnter_def mem Let_def)
  qed
qed

lemma extends_run_Suc: "extends (run C States (Suc k)) (run C States k)"
proof (induction k)
  case 0
  show ?case by (simp add: extends_def)
next
  case (Suc k)
  have IH: "\<And>c m. run C States k c m \<noteq> OutOfFuel \<Longrightarrow>
              run C States (Suc k) c m = run C States k c m"
    using Suc by (simp add: extends_def)
  have "run C States (Suc (Suc k)) c m = run C States (Suc k) c m"
    if ne: "run C States (Suc k) c m \<noteq> OutOfFuel" for c m
  proof (cases c)
    case Skip
    then show ?thesis by simp
  next
    case (Seq a b)
    from ne Seq have a: "run C States k a m \<noteq> OutOfFuel"
      by (auto dest: and_then_OutOfFuel)
    show ?thesis
    proof (cases "run C States k a m")
      case (Returns r1)
      obtain m1 acts1 where r1: "r1 = (m1, acts1)" by (cases r1)
      from ne Seq Returns r1 have "run C States k b m1 \<noteq> OutOfFuel"
        by (auto dest: and_then_OutOfFuel)
      from IH [OF this] IH [OF a] Seq Returns r1 show ?thesis by simp
    next
      case (Fails e)
      with IH [OF a] Seq show ?thesis by simp
    next
      case OutOfFuel
      with a show ?thesis by simp
    qed
  next
    case (IfThenElse g a b)
    with ne IH show ?thesis by (cases "g m") simp_all
  next
    case (CallEnterState T)
    with ne extends_enterState [OF Suc, of C States T m] show ?thesis by simp
  next
    case (CallProcess E p)
    with ne extends_process [OF Suc, of C States "(E, p m)" m] show ?thesis by simp
  next
    case (WriteState T f)
    then show ?thesis by simp
  next
    case (WriteMembers f)
    then show ?thesis by simp
  qed
  then show ?case by (simp only: extends_def) blast
qed

lemma extends_run: "k \<le> k' \<Longrightarrow> extends (run C States k') (run C States k)"
proof (induction k' rule: nat_induct_at_least)
  case base
  show ?case by (simp add: extends_def)
next
  case (Suc n)
  from extends_run_Suc [of C States n] Suc.IH show ?case
    unfolding extends_def by metis
qed


lemma enterState_deeper:
  assumes "enterState C States (run C States k) X m = Returns r" and "k \<le> k'"
  shows "enterState C States (run C States k') X m = Returns r"
  using extends_enterState [OF extends_run [OF assms(2)], where C = C and States = States and X = X and m = m]
    assms(1) by simp

lemma process_deeper:
  assumes "process C States (run C States k) ev m = Returns r" and "k \<le> k'"
  shows "process C States (run C States k') ev m = Returns r"
  using extends_process [OF extends_run [OF assms(2)], where C = C and States = States and ev = ev and m = m]
    assms(1) by simp

subsection \<open>The example machines, evaluated\<close>

lemma MyFSM_requires: "StateMachine_requires every_type_is_class MyFSM"
  by (simp add: StateMachine_requires_def are_distinct_v_def count_in_list_v_def MyFSM_def
      every_type_is_class_def)

lemma Door_requires: "StateMachine_requires every_type_is_class Door"
  by (simp add: StateMachine_requires_def are_distinct_v_def count_in_list_v_def Door_def
      every_type_is_class_def)

lemma Boot_requires: "StateMachine_requires every_type_is_class Boot"
  by (simp add: StateMachine_requires_def are_distinct_v_def count_in_list_v_def Boot_def
      every_type_is_class_def)

lemma MyFSM_locked_by_key:
  "process ex2_classes MyFSM (run ex2_classes MyFSM 2) (LockEvent, 123) (MyFSM_ctor 123 1)
     = Returns (MyFSM_ctor 123 2, [HandleCall CloseState 1 (LockEvent, 123) [Transition LockedState]])"
  by code_simp

lemma MyFSM_close_when_closed:
  "process ex2_classes MyFSM (run ex2_classes MyFSM 2) (CloseEvent, 0) (MyFSM_ctor 123 1)
     = Returns (MyFSM_ctor 123 1, [])"
  by code_simp

lemma Boot_enter_Booting:
  "enterState boot_classes Boot (run boot_classes Boot 2) Booting (Boot_ctor 0)
     = Returns (Boot_ctor 1,
         [Transition Booting, EnterCall Booting 0 [Transition Ready, EnterCall Ready 1 []]])"
  by code_simp

lemma Boot_enter_Ready:
  "enterState boot_classes Boot (run boot_classes Boot 1) Ready (Boot_ctor 0)
     = Returns (Boot_ctor 1, [Transition Ready, EnterCall Ready 1 []])"
  by code_simp

lemma Door_close_by_switch:
  "TINIEST_FSM_DISPATCH_IMPL TINIEST_FSM_DISPATCH_4 ex1_classes Door (run ex1_classes Door 1)
     (CloseEvent, 0) \<lparr>m_currentState = 0, m_states = [0, 0], members = 0\<rparr>
   = Returns (\<lparr>m_currentState = 1, m_states = [0, 0], members = 0\<rparr>,
       [HandleCall OpenState 0 (CloseEvent, 0) [Transition CloseState]])"
  by code_simp

lemma Big_enter_first:
  "run big_classes Big 1 (CallEnterState 0) (Big_ctor 299) = Returns (Big_ctor 0, [Transition 0])"
proof -
  have mem: "0 \<in> set Big" by (simp add: Big_def)
  have pos: "ranges_find Big 0 = 0" by (simp add: Big_def upt_conv_Cons)
  have "enterState big_classes Big (run big_classes Big 0) 0 (Big_ctor 299)
          = Returns (Big_ctor 0, [Transition 0])"
    using mem pos
    by (simp add: enterState_def valid_state_v_def elem_in_list_v_set getStateIndex_mem
        hasEnter_def big_classes_def Big_ctor_def)
  then show ?thesis by simp
qed

lemma Big_last_state_handles:
  "process_table big_classes Big (run big_classes Big 1) ((), ()) (Big_ctor 299)
     = Returns (Big_ctor 0, [HandleCall 299 299 ((), ()) [Transition 0]])"
proof -
  have idx: "m_currentState (Big_ctor 299) < length Big" by (simp add: Big_ctor_def Big_def)
  have d: "distinct Big" by (simp add: Big_def)
  have at: "Big ! m_currentState (Big_ctor 299) = 299" "m_currentState (Big_ctor 299) = 299"
    "Big ! 299 = 299"
    by (simp_all add: Big_ctor_def Big_def)
  have h: "handle big_classes (Big ! m_currentState (Big_ctor 299)) () = Some (\<lambda>ev. CallEnterState 0)"
    by (simp add: big_classes_def at(1))
  from processFromState_handler [OF d idx h, of "run big_classes Big 1" "()" "Big_ctor 299"]
    process_table_valid [OF idx, of big_classes "run big_classes Big 1" "((), ())"]
  show ?thesis by (simp only: at Big_enter_first and_then.simps prod.case)
qed

lemma Chain_requires: "StateMachine_requires every_type_is_class Chain"
  by (simp add: StateMachine_requires_def are_distinct_v_def count_in_list_v_def Chain_def
      every_type_is_class_def)

lemma Chain_go_from_Idle:
  "process chain_classes Chain (run chain_classes Chain 2) ((), ()) (Chain_ctor 0)
     = Returns (Chain_ctor 2,
         [HandleCall Idle 0 ((), ())
            [Transition Starting, EnterCall Starting 1 [Transition Running]]])"
  by code_simp

subsection \<open>The claims\<close>

text \<open>
  C9. The type-list predicates meet their reference definitions: for every type \<open>Elem\<close>
  and type list \<open>L\<close>, \<open>elem_in_list_v\<close> is true iff \<open>Elem\<close> is identical to some entry
  of \<open>L\<close>; \<open>count_in_list_v\<close> is the number of entries of \<open>L\<close> equal to \<open>Elem\<close>; and
  \<open>are_distinct_v\<close> is true iff every entry of \<open>L\<close> occurs in \<open>L\<close> exactly once.
\<close>

theorem type_list_predicates_meet_reference:
  "elem_in_list_v Elem L = spec_contains Elem L
   \<and> count_in_list_v Elem L = spec_countOccurrences Elem L
   \<and> are_distinct_v L = spec_allDistinct L"
proof -
  have "elem_in_list_v Elem L = spec_contains Elem L"
    by (simp add: elem_in_list_v_set spec_contains_def in_set_conv_nth)
  moreover have "count_in_list_v Elem L = spec_countOccurrences Elem L"
    by (simp add: count_in_list_v_filter spec_countOccurrences_filter)
  moreover have "are_distinct_v L = spec_allDistinct L"
    by (simp add: are_distinct_v_all spec_allDistinct_def count_in_list_v_filter
        spec_countOccurrences_filter all_set_conv_all_nth)
  ultimately show ?thesis by simp
qed

theorem type_list_predicates_meet_reference_witness:
  "elem_in_list_v CloseState MyFSM \<and> spec_contains CloseState MyFSM
   \<and> count_in_list_v CloseState MyFSM = 1 \<and> spec_countOccurrences CloseState MyFSM = 1
   \<and> are_distinct_v MyFSM \<and> spec_allDistinct MyFSM
   \<and> \<not> are_distinct_v [OpenState, CloseState, OpenState]
   \<and> \<not> spec_allDistinct [OpenState, CloseState, OpenState]"
proof -
  have a: "elem_in_list_v CloseState MyFSM"
    by (simp add: elem_in_list_v_def MyFSM_def)
  have b: "count_in_list_v CloseState MyFSM = 1"
    by (simp add: count_in_list_v_def MyFSM_def)
  have c: "are_distinct_v MyFSM"
    by (simp add: are_distinct_v_def count_in_list_v_def MyFSM_def)
  have d: "\<not> are_distinct_v [OpenState, CloseState, OpenState]"
    by (simp add: are_distinct_v_def count_in_list_v_def)
  from a b c d
    type_list_predicates_meet_reference [of CloseState MyFSM]
    type_list_predicates_meet_reference [of CloseState "[OpenState, CloseState, OpenState]"]
  show ?thesis by simp
qed

text \<open>
  C1. For every valid state set, every event type \<open>E\<close> and every machine whose current
  index is that of state \<open>S\<close>, \<open>process\<close> invokes the handler of \<open>S\<close> for \<open>E\<close> exactly
  once, on the machine itself and with the event value, and returns when the handler has
  returned, if and only if \<open>has_handler_v\<close> holds for \<open>S\<close> and \<open>E\<close>; it invokes no
  handler of another state. The activities that \<open>process\<close> returns are what it did
  itself; what a handler does through the host pointer is below its \<open>HandleCall\<close>.
  The invoker is arbitrary, so this holds whatever the callbacks do.
\<close>

theorem process_invokes_active_handler_once:
  assumes "StateMachine_requires is_class States"
    and "m_currentState m < length States"
  shows "(has_handler_v C (States ! m_currentState m) E \<longrightarrow>
            (\<exists>body. handle C (States ! m_currentState m) E = Some body
               \<and> process C States invoke (E, p) m =
                   and_then (invoke (body p) m) (\<lambda>(m', sub).
                     Returns (m', [HandleCall (States ! m_currentState m) (m_currentState m) (E, p) sub]))))
       \<and> (\<not> has_handler_v C (States ! m_currentState m) E \<longrightarrow>
            process C States invoke (E, p) m = Returns (m, []))
       \<and> (\<forall>m' acts. process C States invoke (E, p) m = Returns (m', acts) \<longrightarrow>
            (if has_handler_v C (States ! m_currentState m) E
             then \<exists>sub. acts = [HandleCall (States ! m_currentState m) (m_currentState m) (E, p) sub]
             else acts = []))"
proof -
  let ?S = "States ! m_currentState m"
  have d: "distinct States" using assms(1) by (rule requires_distinct)
  have p: "process C States invoke (E, p) m = processFromState C States invoke ?S (E, p) m"
    using assms(2) by (rule process_valid)
  have yes: "\<exists>body. handle C ?S E = Some body
               \<and> process C States invoke (E, p) m =
                   and_then (invoke (body p) m) (\<lambda>(m', sub).
                     Returns (m', [HandleCall ?S (m_currentState m) (E, p) sub]))"
    if "has_handler_v C ?S E"
  proof -
    from that obtain body where b: "handle C ?S E = Some body"
      by (auto simp: has_handler_v_def)
    with p processFromState_handler [OF d assms(2) b] show ?thesis by simp
  qed
  have no: "process C States invoke (E, p) m = Returns (m, [])" if "\<not> has_handler_v C ?S E"
    using that p by (simp add: processFromState_no_handler)
  have once: "if has_handler_v C ?S E
              then \<exists>sub. acts = [HandleCall ?S (m_currentState m) (E, p) sub]
              else acts = []"
    if r: "process C States invoke (E, p) m = Returns (m', acts)" for m' acts
  proof (cases "has_handler_v C ?S E")
    case True
    from yes [OF True] obtain body where
      "process C States invoke (E, p) m =
         and_then (invoke (body p) m) (\<lambda>(m', sub).
           Returns (m', [HandleCall ?S (m_currentState m) (E, p) sub]))"
      by blast
    with r True show ?thesis by (cases "invoke (body p) m") auto
  next
    case False
    with no r show ?thesis by simp
  qed
  from yes no once show ?thesis by blast
qed

theorem process_invokes_active_handler_once_witness:
  "StateMachine_requires every_type_is_class MyFSM
   \<and> m_currentState (MyFSM_ctor 123 1) < length MyFSM
   \<and> has_handler_v ex2_classes (MyFSM ! 1) LockEvent
   \<and> \<not> has_handler_v ex2_classes (MyFSM ! 1) CloseEvent
   \<and> process ex2_classes MyFSM (run ex2_classes MyFSM 2) (CloseEvent, 0) (MyFSM_ctor 123 1)
       = Returns (MyFSM_ctor 123 1, [])
   \<and> process ex2_classes MyFSM (run ex2_classes MyFSM 2) (LockEvent, 123) (MyFSM_ctor 123 1)
       = Returns (MyFSM_ctor 123 2,
           [HandleCall CloseState 1 (LockEvent, 123) [Transition LockedState]])"
proof -
  have idx: "m_currentState (MyFSM_ctor 123 1) < length MyFSM"
    by (simp add: MyFSM_ctor_def MyFSM_def)
  have yes: "has_handler_v ex2_classes (MyFSM ! 1) LockEvent"
    by (simp add: has_handler_v_def ex2_classes_def MyFSM_def)
  have no: "\<not> has_handler_v ex2_classes (MyFSM ! 1) CloseEvent"
    by (simp add: has_handler_v_def ex2_classes_def MyFSM_def)
  have at: "m_currentState (MyFSM_ctor 123 1) = 1"
    by (simp add: MyFSM_ctor_def)
  from process_invokes_active_handler_once [OF MyFSM_requires idx,
      of ex2_classes CloseEvent "run ex2_classes MyFSM 2" 0] no at
  have "process ex2_classes MyFSM (run ex2_classes MyFSM 2) (CloseEvent, 0) (MyFSM_ctor 123 1)
       = Returns (MyFSM_ctor 123 1, [])"
    by simp
  with MyFSM_requires idx yes no MyFSM_locked_by_key show ?thesis by simp
qed

text \<open>
  C3. When the state at the current index defines no handler for the event type,
  \<open>process\<close> returns and has no effect at all: the machine it leaves is the machine it
  was called on, so the index and the data of every state instance are unchanged, and it
  did nothing. Every other call completes its whole effect once the callback it invokes
  has returned: \<open>process\<close> returns the machine the handler leaves, with its one handler
  call; \<open>enterState\<close> returns the machine with the new index when the state has no
  enter hook, and the machine the hook leaves, from the new index, when it has one.
  There is no outcome in between. The invoker is arbitrary.
\<close>

theorem process_without_handler_has_no_effect:
  assumes "StateMachine_requires is_class States"
    and "m_currentState m < length States"
  shows "(\<not> has_handler_v C (States ! m_currentState m) E \<longrightarrow>
            process C States invoke (E, p) m = Returns (m, []))
       \<and> (\<forall>body m' sub.
            handle C (States ! m_currentState m) E = Some body
            \<and> invoke (body p) m = Returns (m', sub) \<longrightarrow>
            process C States invoke (E, p) m =
              Returns (m', [HandleCall (States ! m_currentState m) (m_currentState m) (E, p) sub]))
       \<and> (\<forall>X \<in> set States. \<not> hasEnter C X \<longrightarrow>
            enterState C States invoke X m =
              Returns (m\<lparr>m_currentState := ranges_find States X\<rparr>, [Transition X]))
       \<and> (\<forall>X \<in> set States. \<forall>body m' sub.
            enter C X = Some body
            \<and> invoke body (m\<lparr>m_currentState := ranges_find States X\<rparr>) = Returns (m', sub) \<longrightarrow>
            enterState C States invoke X m =
              Returns (m', [Transition X, EnterCall X (ranges_find States X) sub]))"
proof -
  let ?S = "States ! m_currentState m"
  have d: "distinct States" using assms(1) by (rule requires_distinct)
  have p: "process C States invoke (E, p) m = processFromState C States invoke ?S (E, p) m"
    using assms(2) by (rule process_valid)
  have a: "\<not> has_handler_v C ?S E \<longrightarrow> process C States invoke (E, p) m = Returns (m, [])"
    using p by (simp add: processFromState_no_handler)
  have b: "process C States invoke (E, p) m =
             Returns (m', [HandleCall ?S (m_currentState m) (E, p) sub])"
    if "handle C ?S E = Some body" and "invoke (body p) m = Returns (m', sub)" for body m' sub
    using p that processFromState_handler [OF d assms(2) that(1), of invoke p m] by simp
  have c: "enterState C States invoke X m =
             Returns (m\<lparr>m_currentState := ranges_find States X\<rparr>, [Transition X])"
    if "X \<in> set States" and "\<not> hasEnter C X" for X
    using that by (simp add: enterState_def valid_state_v_def elem_in_list_v_set getStateIndex_mem)
  have e: "enterState C States invoke X m =
             Returns (m', [Transition X, EnterCall X (ranges_find States X) sub])"
    if "X \<in> set States" and "enter C X = Some body"
      and "invoke body (m\<lparr>m_currentState := ranges_find States X\<rparr>) = Returns (m', sub)"
    for X body m' sub
    using that d
    by (simp add: enterState_def valid_state_v_def elem_in_list_v_set getStateIndex_mem
        hasEnter_def std_get_distinct)
  from a b c e show ?thesis by blast
qed

theorem process_without_handler_has_no_effect_witness:
  "StateMachine_requires every_type_is_class MyFSM
   \<and> m_currentState (MyFSM_ctor 123 1) < length MyFSM
   \<and> \<not> has_handler_v ex2_classes (MyFSM ! m_currentState (MyFSM_ctor 123 1)) CloseEvent
   \<and> process ex2_classes MyFSM (run ex2_classes MyFSM 0) (CloseEvent, 0) (MyFSM_ctor 123 1)
       = Returns (MyFSM_ctor 123 1, [])
   \<and> handle ex2_classes (MyFSM ! m_currentState (MyFSM_ctor 123 1)) OpenEvent
       = Some (\<lambda>ev. CallEnterState OpenState)
   \<and> run ex2_classes MyFSM 1 (CallEnterState OpenState) (MyFSM_ctor 123 1)
       = Returns (MyFSM_ctor 123 0, [Transition OpenState])
   \<and> process ex2_classes MyFSM (run ex2_classes MyFSM 1) (OpenEvent, 0) (MyFSM_ctor 123 1)
       = Returns (MyFSM_ctor 123 0, [HandleCall CloseState 1 (OpenEvent, 0) [Transition OpenState]])
   \<and> OpenState \<in> set MyFSM \<and> \<not> hasEnter ex2_classes OpenState
   \<and> enterState ex2_classes MyFSM (run ex2_classes MyFSM 0) OpenState (MyFSM_ctor 123 1)
       = Returns (MyFSM_ctor 123 0, [Transition OpenState])"
proof -
  have idx: "m_currentState (MyFSM_ctor 123 1) < length MyFSM"
    by (simp add: MyFSM_ctor_def MyFSM_def)
  have no: "\<not> has_handler_v ex2_classes (MyFSM ! m_currentState (MyFSM_ctor 123 1)) CloseEvent"
    by (simp add: has_handler_v_def ex2_classes_def MyFSM_def MyFSM_ctor_def)
  have h: "handle ex2_classes (MyFSM ! m_currentState (MyFSM_ctor 123 1)) OpenEvent
       = Some (\<lambda>ev. CallEnterState OpenState)"
    by (simp add: ex2_classes_def MyFSM_def MyFSM_ctor_def)
  have r: "run ex2_classes MyFSM 1 (CallEnterState OpenState) (MyFSM_ctor 123 1)
       = Returns (MyFSM_ctor 123 0, [Transition OpenState])"
    by code_simp
  have mem: "OpenState \<in> set MyFSM" by (simp add: MyFSM_def)
  have hook: "\<not> hasEnter ex2_classes OpenState" by (simp add: hasEnter_def ex2_classes_def)
  have at: "MyFSM ! m_currentState (MyFSM_ctor 123 1) = CloseState"
    "MyFSM ! 1 = CloseState"
    "m_currentState (MyFSM_ctor 123 1) = 1" "ranges_find MyFSM OpenState = 0"
    "MyFSM_ctor 123 1\<lparr>m_currentState := 0\<rparr> = MyFSM_ctor 123 0"
    by (simp_all add: MyFSM_def MyFSM_ctor_def)
  note a = process_without_handler_has_no_effect [OF MyFSM_requires idx,
      of ex2_classes CloseEvent "run ex2_classes MyFSM 0" 0]
  note b = process_without_handler_has_no_effect [OF MyFSM_requires idx,
      of ex2_classes OpenEvent "run ex2_classes MyFSM 1" 0]
  from a no have 1: "process ex2_classes MyFSM (run ex2_classes MyFSM 0) (CloseEvent, 0)
      (MyFSM_ctor 123 1) = Returns (MyFSM_ctor 123 1, [])"
    by blast
  from b h r have "process ex2_classes MyFSM (run ex2_classes MyFSM 1) (OpenEvent, 0)
      (MyFSM_ctor 123 1) = Returns (MyFSM_ctor 123 0,
        [HandleCall (MyFSM ! m_currentState (MyFSM_ctor 123 1)) (m_currentState (MyFSM_ctor 123 1))
           (OpenEvent, 0) [Transition OpenState]])"
    by blast
  then have 2: "process ex2_classes MyFSM (run ex2_classes MyFSM 1) (OpenEvent, 0)
      (MyFSM_ctor 123 1) = Returns (MyFSM_ctor 123 0,
        [HandleCall CloseState 1 (OpenEvent, 0) [Transition OpenState]])"
    by (simp only: at)
  from a mem hook have "enterState ex2_classes MyFSM (run ex2_classes MyFSM 0) OpenState
      (MyFSM_ctor 123 1)
       = Returns (MyFSM_ctor 123 1\<lparr>m_currentState := ranges_find MyFSM OpenState\<rparr>,
           [Transition OpenState])"
    by blast
  then have 3: "enterState ex2_classes MyFSM (run ex2_classes MyFSM 0) OpenState
      (MyFSM_ctor 123 1) = Returns (MyFSM_ctor 123 0, [Transition OpenState])"
    by (simp only: at)
  from MyFSM_requires idx no 1 h r 2 mem hook 3 show ?thesis by blast
qed

text \<open>
  C5. For every state \<open>X\<close> of the pack, \<open>enterState\<close> for \<open>X\<close> assigns the index and
  then invokes the enter hook of \<open>X\<close> exactly once, on the instance of \<open>X\<close> and on the
  machine with the new index, if \<open>X\<close> declares one, and invokes nothing if it does not.
  It invokes no hook or handler of another state itself, none of the previous state in
  particular. What the hook of \<open>X\<close> does through the host pointer is below its
  \<open>EnterCall\<close>. The invoker is arbitrary.
\<close>

theorem enterState_invokes_own_hook_once:
  assumes "StateMachine_requires is_class States"
    and "X \<in> set States"
  shows "(hasEnter C X \<longrightarrow>
            (\<exists>body. enter C X = Some body
               \<and> enterState C States invoke X m =
                   and_then (invoke body (m\<lparr>m_currentState := ranges_find States X\<rparr>))
                     (\<lambda>(m', sub).
                        Returns (m', [Transition X, EnterCall X (ranges_find States X) sub]))))
       \<and> (\<not> hasEnter C X \<longrightarrow>
            enterState C States invoke X m =
              Returns (m\<lparr>m_currentState := ranges_find States X\<rparr>, [Transition X]))
       \<and> (\<forall>m' acts. enterState C States invoke X m = Returns (m', acts) \<longrightarrow>
            (if hasEnter C X
             then \<exists>sub. acts = [Transition X, EnterCall X (ranges_find States X) sub]
             else acts = [Transition X]))
       \<and> ranges_find States X < length States \<and> States ! ranges_find States X = X"
proof -
  let ?i = "ranges_find States X"
  let ?m1 = "m\<lparr>m_currentState := ?i\<rparr>"
  have d: "distinct States" using assms(1) by (rule requires_distinct)
  have yes: "\<exists>body. enter C X = Some body
               \<and> enterState C States invoke X m =
                   and_then (invoke body ?m1)
                     (\<lambda>(m', sub). Returns (m', [Transition X, EnterCall X ?i sub]))"
    if "hasEnter C X"
  proof -
    from that obtain body where b: "enter C X = Some body"
      by (auto simp: hasEnter_def)
    with assms(2) d that have "enterState C States invoke X m =
        and_then (invoke body ?m1) (\<lambda>(m', sub). Returns (m', [Transition X, EnterCall X ?i sub]))"
      by (simp add: enterState_def valid_state_v_def elem_in_list_v_set getStateIndex_mem
          std_get_distinct)
    with b show ?thesis by blast
  qed
  have no: "enterState C States invoke X m = Returns (?m1, [Transition X])"
    if "\<not> hasEnter C X"
    using that assms(2)
    by (simp add: enterState_def valid_state_v_def elem_in_list_v_set getStateIndex_mem)
  have once: "if hasEnter C X then \<exists>sub. acts = [Transition X, EnterCall X ?i sub]
              else acts = [Transition X]"
    if r: "enterState C States invoke X m = Returns (m', acts)" for m' acts
  proof (cases "hasEnter C X")
    case True
    from yes [OF True] obtain body where
      "enterState C States invoke X m =
         and_then (invoke body ?m1) (\<lambda>(m', sub). Returns (m', [Transition X, EnterCall X ?i sub]))"
      by blast
    with r True show ?thesis by (cases "invoke body ?m1") auto
  next
    case False
    with no r show ?thesis by simp
  qed
  from yes no once ranges_find_mem [OF assms(2)] show ?thesis by blast
qed

theorem enterState_invokes_own_hook_once_witness:
  "StateMachine_requires every_type_is_class Boot \<and> Ready \<in> set Boot
   \<and> hasEnter boot_classes Ready
   \<and> enterState boot_classes Boot (run boot_classes Boot 1) Ready (Boot_ctor 0)
       = Returns (Boot_ctor 1, [Transition Ready, EnterCall Ready 1 []])
   \<and> StateMachine_requires every_type_is_class MyFSM \<and> OpenState \<in> set MyFSM
   \<and> \<not> hasEnter ex2_classes OpenState
   \<and> enterState ex2_classes MyFSM (run ex2_classes MyFSM 0) OpenState (MyFSM_ctor 123 7)
       = Returns (MyFSM_ctor 123 0, [Transition OpenState])"
proof -
  have mem: "Ready \<in> set Boot" "OpenState \<in> set MyFSM" by (simp_all add: Boot_def MyFSM_def)
  have hook: "hasEnter boot_classes Ready" "\<not> hasEnter ex2_classes OpenState"
    by (simp_all add: hasEnter_def boot_classes_def ex2_classes_def)
  have at: "ranges_find MyFSM OpenState = 0"
    "MyFSM_ctor 123 7\<lparr>m_currentState := 0\<rparr> = MyFSM_ctor 123 0"
    by (simp_all add: MyFSM_def MyFSM_ctor_def)
  from enterState_invokes_own_hook_once [OF MyFSM_requires mem(2),
      of ex2_classes "run ex2_classes MyFSM 0" "MyFSM_ctor 123 7"] hook(2)
  have "enterState ex2_classes MyFSM (run ex2_classes MyFSM 0) OpenState (MyFSM_ctor 123 7)
       = Returns (MyFSM_ctor 123 7\<lparr>m_currentState := ranges_find MyFSM OpenState\<rparr>,
           [Transition OpenState])"
    by blast
  then have 1: "enterState ex2_classes MyFSM (run ex2_classes MyFSM 0) OpenState (MyFSM_ctor 123 7)
       = Returns (MyFSM_ctor 123 0, [Transition OpenState])"
    by (simp only: at)
  from enterState_invokes_own_hook_once [OF Boot_requires mem(1),
      of boot_classes "run boot_classes Boot 1" "Boot_ctor 0"] hook(1) Boot_enter_Ready
  have "\<exists>sub. [Transition Ready, EnterCall Ready 1 []]
          = [Transition Ready, EnterCall Ready (ranges_find Boot Ready) sub]"
    by simp
  with Boot_requires MyFSM_requires mem hook 1 Boot_enter_Ready show ?thesis by blast
qed

text \<open>
  C4. The switch strategy, in each of its four sizes, and the table strategy give the same
  result: for every state set that the switch of a size is used for, every valid current
  index and every event, the switch and the table return the same outcome (the same
  machine and the same handler call, or none). Hence \<open>process\<close>, which selects the
  strategy by the number of states, is the table strategy on every state set.
  A current index is below the number of states; with any other value of
  \<open>m_currentState\<close> both strategies are undefined behaviour. The invoker is arbitrary.
\<close>

theorem dispatch_strategies_equivalent:
  assumes "m_currentState m < length States"
  shows "(length States \<le> 4 \<longrightarrow>
            TINIEST_FSM_DISPATCH_IMPL TINIEST_FSM_DISPATCH_4 C States invoke ev m
              = process_table C States invoke ev m)
       \<and> (length States \<le> 16 \<longrightarrow>
            TINIEST_FSM_DISPATCH_IMPL TINIEST_FSM_DISPATCH_16 C States invoke ev m
              = process_table C States invoke ev m)
       \<and> (length States \<le> 64 \<longrightarrow>
            TINIEST_FSM_DISPATCH_IMPL TINIEST_FSM_DISPATCH_64 C States invoke ev m
              = process_table C States invoke ev m)
       \<and> (length States \<le> 256 \<longrightarrow>
            TINIEST_FSM_DISPATCH_IMPL TINIEST_FSM_DISPATCH_256 C States invoke ev m
              = process_table C States invoke ev m)
       \<and> process C States invoke ev m = process_table C States invoke ev m"
proof -
  let ?r = "processFromState C States invoke (States ! m_currentState m) ev m"
  have t: "process_table C States invoke ev m = ?r"
    using assms by (rule process_table_valid)
  have i: "processFromIndex C States invoke (m_currentState m) ev m = ?r"
    using assms by (rule processFromIndex_valid)
  have "length States \<le> 4 \<longrightarrow>
          TINIEST_FSM_DISPATCH_IMPL TINIEST_FSM_DISPATCH_4 C States invoke ev m = ?r"
    using assms i by (simp add: switch_4_valid)
  moreover have "length States \<le> 16 \<longrightarrow>
          TINIEST_FSM_DISPATCH_IMPL TINIEST_FSM_DISPATCH_16 C States invoke ev m = ?r"
    using assms i by (simp add: switch_16_valid)
  moreover have "length States \<le> 64 \<longrightarrow>
          TINIEST_FSM_DISPATCH_IMPL TINIEST_FSM_DISPATCH_64 C States invoke ev m = ?r"
    using assms i by (simp add: switch_64_valid)
  moreover have "length States \<le> 256 \<longrightarrow>
          TINIEST_FSM_DISPATCH_IMPL TINIEST_FSM_DISPATCH_256 C States invoke ev m = ?r"
    using assms i by (simp add: switch_256_valid)
  moreover have "process C States invoke ev m = ?r"
    using assms by (rule process_valid)
  ultimately show ?thesis using t by simp
qed

theorem dispatch_strategies_equivalent_witness:
  "m_currentState \<lparr>m_currentState = 0, m_states = [0, 0], members = 0\<rparr> < length Door
   \<and> length Door \<le> 4
   \<and> TINIEST_FSM_DISPATCH_IMPL TINIEST_FSM_DISPATCH_4 ex1_classes Door (run ex1_classes Door 1)
       (CloseEvent, 0) \<lparr>m_currentState = 0, m_states = [0, 0], members = 0\<rparr>
     = Returns (\<lparr>m_currentState = 1, m_states = [0, 0], members = 0\<rparr>,
         [HandleCall OpenState 0 (CloseEvent, 0) [Transition CloseState]])
   \<and> process_table ex1_classes Door (run ex1_classes Door 1)
       (CloseEvent, 0) \<lparr>m_currentState = 0, m_states = [0, 0], members = 0\<rparr>
     = Returns (\<lparr>m_currentState = 1, m_states = [0, 0], members = 0\<rparr>,
         [HandleCall OpenState 0 (CloseEvent, 0) [Transition CloseState]])
   \<and> process ex1_classes Door (run ex1_classes Door 1)
       (CloseEvent, 0) \<lparr>m_currentState = 0, m_states = [0, 0], members = 0\<rparr>
     = Returns (\<lparr>m_currentState = 1, m_states = [0, 0], members = 0\<rparr>,
         [HandleCall OpenState 0 (CloseEvent, 0) [Transition CloseState]])
   \<and> m_currentState (Big_ctor 299) < length Big \<and> \<not> length Big \<le> 256
   \<and> process big_classes Big (run big_classes Big 1) ((), ()) (Big_ctor 299)
     = Returns (Big_ctor 0, [HandleCall 299 299 ((), ()) [Transition 0]])"
proof -
  have bidx: "m_currentState (Big_ctor 299) < length Big" by (simp add: Big_ctor_def Big_def)
  have large: "\<not> length Big \<le> 256" by (simp add: Big_def)
  from dispatch_strategies_equivalent [OF bidx, of big_classes "run big_classes Big 1" "((), ())"]
  have "process big_classes Big (run big_classes Big 1) ((), ()) (Big_ctor 299)
     = process_table big_classes Big (run big_classes Big 1) ((), ()) (Big_ctor 299)"
    by blast
  with Big_last_state_handles
  have big: "process big_classes Big (run big_classes Big 1) ((), ()) (Big_ctor 299)
     = Returns (Big_ctor 0, [HandleCall 299 299 ((), ()) [Transition 0]])"
    by simp
  let ?door = "\<lparr>m_currentState = 0, m_states = [0, 0], members = 0\<rparr> :: nat machine"
  have idx: "m_currentState ?door < length Door" by (simp add: Door_def)
  have small: "length Door \<le> 4" by (simp add: Door_def)
  note eq = dispatch_strategies_equivalent [OF idx, of ex1_classes "run ex1_classes Door 1"
      "(CloseEvent, 0)"]
  from eq small have t: "process_table ex1_classes Door (run ex1_classes Door 1)
       (CloseEvent, 0) ?door
     = TINIEST_FSM_DISPATCH_IMPL TINIEST_FSM_DISPATCH_4 ex1_classes Door (run ex1_classes Door 1)
       (CloseEvent, 0) ?door"
    by simp
  from eq have p: "process ex1_classes Door (run ex1_classes Door 1) (CloseEvent, 0) ?door
     = process_table ex1_classes Door (run ex1_classes Door 1) (CloseEvent, 0) ?door"
    by blast
  from idx small Door_close_by_switch bidx large big show ?thesis
    unfolding p t by simp
qed

text \<open>
  C7. With a current index below the number of states, dispatch is total and safe: in
  each size of the switch the index selects a section, and that section is the one that
  calls \<open>processFromIndex\<close> for the index, neither a padded section nor \<open>default\<close>; in
  the table strategy the index is within the table; and \<open>process\<close>, the callbacks
  executed to any depth, ends neither in \<open>_TINIEST_FSM_UNREACHABLE\<close> nor in a read
  outside the table nor with an invalid state index.
\<close>

theorem dispatch_total_and_safe:
  assumes "m_currentState m < length States"
  shows "(length States \<le> 4 \<longrightarrow>
            map_of (TINIEST_FSM_DISPATCH_4 0 (TINIEST_FSM_CASE C States invoke ev m))
              (m_currentState m)
              = Some (processFromIndex C States invoke (m_currentState m) ev m))
       \<and> (length States \<le> 16 \<longrightarrow>
            map_of (TINIEST_FSM_DISPATCH_16 0 (TINIEST_FSM_CASE C States invoke ev m))
              (m_currentState m)
              = Some (processFromIndex C States invoke (m_currentState m) ev m))
       \<and> (length States \<le> 64 \<longrightarrow>
            map_of (TINIEST_FSM_DISPATCH_64 0 (TINIEST_FSM_CASE C States invoke ev m))
              (m_currentState m)
              = Some (processFromIndex C States invoke (m_currentState m) ev m))
       \<and> (length States \<le> 256 \<longrightarrow>
            map_of (TINIEST_FSM_DISPATCH_256 0 (TINIEST_FSM_CASE C States invoke ev m))
              (m_currentState m)
              = Some (processFromIndex C States invoke (m_currentState m) ev m))
       \<and> m_currentState m < length (process_fun_table C States invoke (fst ev))
       \<and> process C States (run C States k) ev m \<noteq> Fails Unreachable
       \<and> process C States (run C States k) ev m \<noteq> Fails OutOfBounds
       \<and> process C States (run C States k) ev m \<noteq> Fails InvalidStateIndex"
proof -
  let ?X = "TINIEST_FSM_CASE C States invoke ev m"
  have sec: "snd (?X (m_currentState m))
               = processFromIndex C States invoke (m_currentState m) ev m"
    using assms by (simp add: TINIEST_FSM_CASE_def)
  have s4: "length States \<le> 4 \<longrightarrow> map_of (TINIEST_FSM_DISPATCH_4 0 ?X) (m_currentState m)
              = Some (processFromIndex C States invoke (m_currentState m) ev m)"
    using assms sec by (simp add: map_of_D4 [OF fst_CASE])
  have s16: "length States \<le> 16 \<longrightarrow> map_of (TINIEST_FSM_DISPATCH_16 0 ?X) (m_currentState m)
              = Some (processFromIndex C States invoke (m_currentState m) ev m)"
    using assms sec by (simp add: map_of_D16 [OF fst_CASE])
  have s64: "length States \<le> 64 \<longrightarrow> map_of (TINIEST_FSM_DISPATCH_64 0 ?X) (m_currentState m)
              = Some (processFromIndex C States invoke (m_currentState m) ev m)"
    using assms sec by (simp add: map_of_D64 [OF fst_CASE])
  have s256: "length States \<le> 256 \<longrightarrow> map_of (TINIEST_FSM_DISPATCH_256 0 ?X) (m_currentState m)
              = Some (processFromIndex C States invoke (m_currentState m) ev m)"
    using assms sec by (simp add: map_of_D256 [OF fst_CASE])
  have tab: "m_currentState m < length (process_fun_table C States invoke (fst ev))"
    using assms by (simp add: process_fun_table_def)
  have "tracked States m (process C States (run C States k) ev m)"
    by (rule tracked_process) (rule tracking_run)
  with assms have safe: "process C States (run C States k) ev m \<noteq> Fails Unreachable
       \<and> process C States (run C States k) ev m \<noteq> Fails OutOfBounds
       \<and> process C States (run C States k) ev m \<noteq> Fails InvalidStateIndex"
    by (auto simp: tracked_def)
  from s4 s16 s64 s256 tab safe show ?thesis by blast
qed

theorem dispatch_total_and_safe_witness:
  "m_currentState (MyFSM_ctor 123 1) < length MyFSM \<and> length MyFSM \<le> 4
   \<and> map_of (TINIEST_FSM_DISPATCH_4 0
        (TINIEST_FSM_CASE ex2_classes MyFSM (run ex2_classes MyFSM 2) (LockEvent, 123)
           (MyFSM_ctor 123 1))) (m_currentState (MyFSM_ctor 123 1))
       = Some (processFromIndex ex2_classes MyFSM (run ex2_classes MyFSM 2)
           (m_currentState (MyFSM_ctor 123 1)) (LockEvent, 123) (MyFSM_ctor 123 1))
   \<and> process ex2_classes MyFSM (run ex2_classes MyFSM 2) (LockEvent, 123) (MyFSM_ctor 123 1)
       \<noteq> Fails Unreachable"
proof -
  have idx: "m_currentState (MyFSM_ctor 123 1) < length MyFSM"
    by (simp add: MyFSM_ctor_def MyFSM_def)
  have small: "length MyFSM \<le> 4" by (simp add: MyFSM_def)
  from dispatch_total_and_safe [OF idx, of ex2_classes "run ex2_classes MyFSM 2"
      "(LockEvent, 123)" 2] idx small
  show ?thesis by blast
qed

text \<open>
  C2. As claimed, \<open>currentStateId()\<close> right after \<open>enterState\<close> for \<open>X\<close> would be the
  position of \<open>X\<close> in the pack also when the enter hook of \<open>X\<close> performs further
  transitions. \<open>enterState\<close> assigns the index first and calls the hook afterwards, so
  the index is the one the hook leaves: entering \<open>Booting\<close>, whose hook enters \<open>Ready\<close>,
  leaves the index 1, and \<open>Booting\<close> is at position 0.
\<close>

theorem enterState_hook_moves_index_counterexample:
  "StateMachine_requires every_type_is_class Boot
   \<and> getStateIndex Boot Booting = Returns 0
   \<and> enterState boot_classes Boot (run boot_classes Boot 2) Booting (Boot_ctor 0)
       = Returns (Boot_ctor 1,
           [Transition Booting, EnterCall Booting 0 [Transition Ready, EnterCall Ready 1 []]])
   \<and> currentStateId (Boot_ctor 1) = 1
   \<and> currentStateId (Boot_ctor 1) \<noteq> 0"
proof -
  have "getStateIndex Boot Booting = Returns 0" by code_simp
  moreover have "currentStateId (Boot_ctor 1) = 1"
    by (simp add: currentStateId_def Boot_ctor_def)
  ultimately show ?thesis using Boot_requires Boot_enter_Booting by simp
qed

text \<open>
  C2, amended. For every valid state set, \<open>currentStateId()\<close> right after
  \<open>enterState\<close> for \<open>X\<close> has returned is the position of the target of the last
  transition performed during the call, the first of which is the one to \<open>X\<close>. It is
  the position of \<open>X\<close> in the pack, the only position that holds \<open>X\<close>, whenever the
  transition to \<open>X\<close> is the only one: when \<open>X\<close> declares no enter hook, or when its hook
  performs no further transition. Callbacks are executed to any depth, and a deeper
  bound on the nesting gives the same result.
\<close>

theorem enterState_leaves_index_of_last_transition:
  assumes "StateMachine_requires is_class States"
    and "enterState C States (run C States k) X m = Returns (m', acts)"
  shows "X \<in> set States
       \<and> transitions_of acts \<noteq> [] \<and> hd (transitions_of acts) = X
       \<and> getStateIndex States (last (transitions_of acts)) = Returns (currentStateId m')
       \<and> (\<forall>k' \<ge> k. enterState C States (run C States k') X m = Returns (m', acts))
       \<and> (\<not> hasEnter C X \<longrightarrow> transitions_of acts = [X])
       \<and> (transitions_of acts = [X] \<longrightarrow>
            getStateIndex States X = Returns (currentStateId m')
            \<and> currentStateId m' < length States \<and> States ! currentStateId m' = X
            \<and> (\<forall>j < length States. States ! j = X \<longrightarrow> j = currentStateId m'))"
proof -
  have d: "distinct States" using assms(1) by (rule requires_distinct)
  note shape = enterState_Returns [OF assms(2)]
  from shape(2) obtain rest where acts: "acts = Transition X # rest" by blast
  then have ne: "transitions_of acts \<noteq> []" and hd: "hd (transitions_of acts) = X"
    by (simp_all add: transitions_of_simps)
  have "tracked States m (enterState C States (run C States k) X m)"
    by (rule tracked_enterState) (rule tracking_run)
  with assms(2) have tr: "tracked States m (Returns (m', acts))" by simp
  from tracked_Returns(3) [OF tr ne]
  have last: "getStateIndex States (last (transitions_of acts)) = Returns (currentStateId m')"
    by (simp add: currentStateId_def)
  have nohook: "\<not> hasEnter C X \<longrightarrow> transitions_of acts = [X]"
    using shape(3) by (auto simp: transitions_of_simps)
  have only: "getStateIndex States X = Returns (currentStateId m')
            \<and> currentStateId m' < length States \<and> States ! currentStateId m' = X
            \<and> (\<forall>j < length States. States ! j = X \<longrightarrow> j = currentStateId m')"
    if "transitions_of acts = [X]"
  proof -
    from that last have g: "getStateIndex States X = Returns (currentStateId m')" by simp
    with getStateIndex_Returns [OF g] have i: "currentStateId m' = ranges_find States X"
      by simp
    from i ranges_find_mem [OF shape(1)] position_unique [OF d] g show ?thesis by auto
  qed
  have deeper: "\<forall>k' \<ge> k. enterState C States (run C States k') X m = Returns (m', acts)"
    using enterState_deeper [OF assms(2)] by blast
  from shape(1) ne hd last deeper nohook only show ?thesis by blast
qed

theorem enterState_leaves_index_of_last_transition_witness:
  "StateMachine_requires every_type_is_class Boot
   \<and> enterState boot_classes Boot (run boot_classes Boot 2) Booting (Boot_ctor 0)
       = Returns (Boot_ctor 1,
           [Transition Booting, EnterCall Booting 0 [Transition Ready, EnterCall Ready 1 []]])
   \<and> last (transitions_of
        ([Transition Booting, EnterCall Booting 0 [Transition Ready, EnterCall Ready 1 []]]
          :: (boot_state, unit \<times> unit) activity list))
       = Ready
   \<and> getStateIndex Boot Ready = Returns (currentStateId (Boot_ctor 1))
   \<and> enterState boot_classes Boot (run boot_classes Boot 1) Ready (Boot_ctor 0)
       = Returns (Boot_ctor 1, [Transition Ready, EnterCall Ready 1 []])
   \<and> transitions_of
         ([Transition Ready, EnterCall Ready 1 []] :: (boot_state, unit \<times> unit) activity list)
       = [Ready]
   \<and> currentStateId (Boot_ctor 1) < length Boot \<and> Boot ! currentStateId (Boot_ctor 1) = Ready"
proof -
  have t2: "last (transitions_of
        ([Transition Booting, EnterCall Booting 0 [Transition Ready, EnterCall Ready 1 []]]
          :: (boot_state, unit \<times> unit) activity list))
       = Ready"
    by (simp add: transitions_of_simps transitions_sub)
  have t1: "transitions_of
         ([Transition Ready, EnterCall Ready 1 []] :: (boot_state, unit \<times> unit) activity list)
       = [Ready]"
    by (simp add: transitions_of_simps transitions_sub)
  have "getStateIndex Boot (last (transitions_of
        ([Transition Booting, EnterCall Booting 0 [Transition Ready, EnterCall Ready 1 []]]
          :: (boot_state, unit \<times> unit) activity list)))
       = Returns (currentStateId (Boot_ctor 1))"
    using enterState_leaves_index_of_last_transition [OF Boot_requires Boot_enter_Booting]
    by (elim conjE)
  then have a: "getStateIndex Boot Ready = Returns (currentStateId (Boot_ctor 1))"
    by (simp only: t2)
  have "transitions_of
         ([Transition Ready, EnterCall Ready 1 []] :: (boot_state, unit \<times> unit) activity list)
       = [Ready] \<longrightarrow>
          getStateIndex Boot Ready = Returns (currentStateId (Boot_ctor 1))
          \<and> currentStateId (Boot_ctor 1) < length Boot \<and> Boot ! currentStateId (Boot_ctor 1) = Ready
          \<and> (\<forall>j < length Boot. Boot ! j = Ready \<longrightarrow> j = currentStateId (Boot_ctor 1))"
    using enterState_leaves_index_of_last_transition [OF Boot_requires Boot_enter_Ready]
    by (elim conjE)
  with t1 have b: "currentStateId (Boot_ctor 1) < length Boot
      \<and> Boot ! currentStateId (Boot_ctor 1) = Ready"
    by blast
  from Boot_requires Boot_enter_Booting Boot_enter_Ready t1 t2 a b show ?thesis
    by (intro conjI) (elim conjE, assumption)+
qed

text \<open>
  C6. As claimed, whenever the handler that \<open>process\<close> invokes itself calls
  \<open>enterState\<close> for \<open>Y\<close> as its last transition, the current state would be \<open>Y\<close> when
  \<open>process\<close> returns, for every state \<open>Y\<close>. \<open>enterState\<close> calls the enter hook of \<open>Y\<close>
  after it has assigned the index, so a hook that enters another state leaves that
  state's index: the handler of \<open>Idle\<close> calls \<open>enterState\<close> for \<open>Starting\<close> and nothing
  else, the hook of \<open>Starting\<close> enters \<open>Running\<close>, and \<open>process\<close> returns with the
  index 2 of \<open>Running\<close>, not with the index 1 of \<open>Starting\<close>.
\<close>

theorem handler_enters_state_with_moving_hook_counterexample:
  "StateMachine_requires every_type_is_class Chain
   \<and> handle chain_classes (Chain ! m_currentState (Chain_ctor 0)) () = Some chain_go
   \<and> chain_go () = CallEnterState Starting
   \<and> process chain_classes Chain (run chain_classes Chain 2) ((), ()) (Chain_ctor 0)
       = Returns (Chain_ctor 2,
           [HandleCall Idle 0 ((), ())
              [Transition Starting, EnterCall Starting 1 [Transition Running]]])
   \<and> getStateIndex Chain Starting = Returns 1
   \<and> currentStateId (Chain_ctor 2) = 2
   \<and> currentStateId (Chain_ctor 2) \<noteq> 1
   \<and> Chain ! currentStateId (Chain_ctor 2) \<noteq> Starting"
proof -
  have h: "handle chain_classes (Chain ! m_currentState (Chain_ctor 0)) () = Some chain_go"
    by (simp add: chain_classes_def Chain_def Chain_ctor_def)
  have b: "chain_go () = CallEnterState Starting" by simp
  have g: "getStateIndex Chain Starting = Returns 1" by code_simp
  have i: "currentStateId (Chain_ctor 2) = 2"
    by (simp add: currentStateId_def Chain_ctor_def)
  have n: "currentStateId (Chain_ctor 2) \<noteq> 1"
    by (simp add: currentStateId_def Chain_ctor_def)
  have s: "Chain ! currentStateId (Chain_ctor 2) \<noteq> Starting"
    by (simp add: currentStateId_def Chain_ctor_def Chain_def)
  from Chain_requires h b Chain_go_from_Idle g i n s show ?thesis
    by (intro conjI) (assumption | (elim conjE, assumption))+
qed

text \<open>
  C6, amended. For every state \<open>Y\<close>: when \<open>process\<close> has returned and the last
  transition performed during the call is the one to \<open>Y\<close>, the current state is \<open>Y\<close>,
  the index is the position of \<open>Y\<close>. The transitions of the call are those performed
  while the one handler that \<open>process\<close> invoked ran, by the handler through the host
  pointer or by an enter hook that such a transition calls, and the machine that
  \<open>process\<close> returns is the machine that the handler left: nested transitions take
  place in call order and \<open>process\<close> does not assign the index afterwards. The last
  transition is the one to \<open>Y\<close> in particular when the handler itself calls
  \<open>enterState\<close> for \<open>Y\<close> and no transition follows that call: \<open>Y\<close> declares no enter
  hook or its hook performs no transition, and the handler performs none afterwards.
  Callbacks are executed to any depth, and a deeper bound on the nesting gives the same
  result.
\<close>

theorem handler_transition_survives_process:
  assumes "StateMachine_requires is_class States"
    and "process C States (run C States k) ev m = Returns (m', acts)"
  shows "(transitions_of acts \<noteq> [] \<and> last (transitions_of acts) = Y \<longrightarrow>
            Y \<in> set States
            \<and> getStateIndex States Y = Returns (currentStateId m')
            \<and> currentStateId m' < length States \<and> States ! currentStateId m' = Y
            \<and> (\<forall>k' \<ge> k. process C States (run C States k') ev m = Returns (m', acts))
            \<and> (\<exists>body sub.
                  handle C (States ! m_currentState m) (fst ev) = Some body
                  \<and> run C States k (body (snd ev)) m = Returns (m', sub)
                  \<and> acts = [HandleCall (States ! m_currentState m) (m_currentState m) ev sub]
                  \<and> transitions_of sub = transitions_of acts))
       \<and> (\<forall>S self e sub pre post.
             acts = [HandleCall S self e sub] \<and> sub = pre @ Transition Y # post
             \<and> transitions_of post = [] \<longrightarrow>
             transitions_of acts \<noteq> [] \<and> last (transitions_of acts) = Y)"
proof -
  let ?S = "States ! m_currentState m"
  have d: "distinct States" using assms(1) by (rule requires_distinct)
  have general: "Y \<in> set States
            \<and> getStateIndex States Y = Returns (currentStateId m')
            \<and> currentStateId m' < length States \<and> States ! currentStateId m' = Y
            \<and> (\<forall>k' \<ge> k. process C States (run C States k') ev m = Returns (m', acts))
            \<and> (\<exists>body sub.
                  handle C ?S (fst ev) = Some body
                  \<and> run C States k (body (snd ev)) m = Returns (m', sub)
                  \<and> acts = [HandleCall ?S (m_currentState m) ev sub]
                  \<and> transitions_of sub = transitions_of acts)"
    if ne: "transitions_of acts \<noteq> []" and l: "last (transitions_of acts) = Y"
  proof -
    have "tracked States m (process C States (run C States k) ev m)"
      by (rule tracked_process) (rule tracking_run)
    with assms(2) have tr: "tracked States m (Returns (m', acts))" by simp
    from tracked_Returns(3) [OF tr ne] l
    have mem: "Y \<in> set States" and g: "getStateIndex States Y = Returns (currentStateId m')"
      by (simp_all add: currentStateId_def)
    from getStateIndex_Returns [OF g] have i: "currentStateId m' = ranges_find States Y"
      by simp
    with ranges_find_mem [OF mem]
    have pos: "currentStateId m' < length States \<and> States ! currentStateId m' = Y"
      by simp
    have idx: "m_currentState m < length States"
    proof (rule ccontr)
      assume "\<not> m_currentState m < length States"
      from process_invalid [OF this, of C "run C States k" ev] assms(2) show False
        by (simp split: if_splits)
    qed
    have p: "processFromState C States (run C States k) ?S ev m = Returns (m', acts)"
      using assms(2) process_valid [OF idx, of C "run C States k" ev] by simp
    have has: "has_handler_v C ?S (fst ev)"
    proof (rule ccontr)
      assume "\<not> has_handler_v C ?S (fst ev)"
      from processFromState_no_handler [OF this, of States "run C States k" m] p ne
      show False by (auto simp: transitions_of_simps)
    qed
    then obtain body where b: "handle C ?S (fst ev) = Some body"
      by (auto simp: has_handler_v_def)
    from processFromState_handler [OF d idx b, of "run C States k" "snd ev" m] p
    have call: "and_then (run C States k (body (snd ev)) m) (\<lambda>(m', sub).
               Returns (m', [HandleCall ?S (m_currentState m) ev sub])) = Returns (m', acts)"
      by simp
    then obtain sub where r: "run C States k (body (snd ev)) m = Returns (m', sub)"
      and a: "acts = [HandleCall ?S (m_currentState m) ev sub]"
      by (cases "run C States k (body (snd ev)) m") auto
    from a have "transitions_of sub = transitions_of acts"
      by (simp add: transitions_of_simps transitions_sub)
    moreover have "\<forall>k' \<ge> k. process C States (run C States k') ev m = Returns (m', acts)"
      using process_deeper [OF assms(2)] by blast
    ultimately show ?thesis using mem g pos b r a by blast
  qed
  have own: "transitions_of acts \<noteq> [] \<and> last (transitions_of acts) = Y"
    if "acts = [HandleCall S self e sub]" and "sub = pre @ Transition Y # post"
      and "transitions_of post = []" for S self e sub pre post
    using that by (simp add: transitions_of_simps transitions_sub)
  from general own show ?thesis by blast
qed

theorem handler_transition_survives_process_witness:
  "StateMachine_requires every_type_is_class MyFSM
   \<and> process ex2_classes MyFSM (run ex2_classes MyFSM 2) (LockEvent, 123) (MyFSM_ctor 123 1)
       = Returns (MyFSM_ctor 123 2,
           [HandleCall CloseState 1 (LockEvent, 123) [Transition LockedState]])
   \<and> transitions_of
        ([HandleCall CloseState 1 (LockEvent, 123) [Transition LockedState]]
           :: (door_state, door_event \<times> nat) activity list) = [LockedState]
   \<and> getStateIndex MyFSM LockedState = Returns (currentStateId (MyFSM_ctor 123 2))
   \<and> currentStateId (MyFSM_ctor 123 2) < length MyFSM
   \<and> MyFSM ! currentStateId (MyFSM_ctor 123 2) = LockedState
   \<and> StateMachine_requires every_type_is_class Chain
   \<and> process chain_classes Chain (run chain_classes Chain 2) ((), ()) (Chain_ctor 0)
       = Returns (Chain_ctor 2,
           [HandleCall Idle 0 ((), ())
              [Transition Starting, EnterCall Starting 1 [Transition Running]]])
   \<and> last (transitions_of
        ([HandleCall Idle 0 ((), ())
            [Transition Starting, EnterCall Starting 1 [Transition Running]]]
           :: (chain_state, unit \<times> unit) activity list)) = Running
   \<and> getStateIndex Chain Running = Returns (currentStateId (Chain_ctor 2))
   \<and> Chain ! currentStateId (Chain_ctor 2) = Running"
proof -
  let ?acts = "[HandleCall CloseState 1 (LockEvent, 123) [Transition LockedState]]
           :: (door_state, door_event \<times> nat) activity list"
  let ?sub = "[Transition LockedState] :: (door_state, door_event \<times> nat) activity list"
  note door = handler_transition_survives_process [OF MyFSM_requires MyFSM_locked_by_key,
      of LockedState]
  have t: "transitions_of ?acts = [LockedState]"
    by (simp add: transitions_of_simps transitions_sub)
  have shape: "?acts = [HandleCall CloseState 1 (LockEvent, 123) ?sub]
      \<and> ?sub = [] @ Transition LockedState # [] \<and> transitions_of ([] :: (door_state, door_event \<times> nat) activity list) = []"
    by (simp add: transitions_of_simps)
  from door shape have last: "transitions_of ?acts \<noteq> [] \<and> last (transitions_of ?acts) = LockedState"
    by blast
  with door have a: "getStateIndex MyFSM LockedState = Returns (currentStateId (MyFSM_ctor 123 2))
   \<and> currentStateId (MyFSM_ctor 123 2) < length MyFSM
   \<and> MyFSM ! currentStateId (MyFSM_ctor 123 2) = LockedState"
    by blast
  let ?cacts = "[HandleCall Idle 0 ((), ())
            [Transition Starting, EnterCall Starting 1 [Transition Running]]]
           :: (chain_state, unit \<times> unit) activity list"
  have ct: "transitions_of ?cacts = [Starting, Running]"
    by (simp add: transitions_of_simps transitions_sub)
  then have cl: "transitions_of ?cacts \<noteq> [] \<and> last (transitions_of ?cacts) = Running"
    by simp
  with handler_transition_survives_process [OF Chain_requires Chain_go_from_Idle, of Running]
  have c: "getStateIndex Chain Running = Returns (currentStateId (Chain_ctor 2))
   \<and> Chain ! currentStateId (Chain_ctor 2) = Running"
    by blast
  from MyFSM_requires MyFSM_locked_by_key t a Chain_requires Chain_go_from_Idle cl c
  show ?thesis
    by (intro conjI) (assumption | (elim conjE, assumption))+
qed

text \<open>
  C8. The index is changed by \<open>enterState\<close> only. Whatever user code runs through the
  host pointer, to any depth, and for \<open>process\<close> and \<open>enterState\<close> called by the
  application: a call that performed no transition leaves the index as it was, a call
  that performed transitions leaves the position of the target of the last one, and an
  index below the number of states stays below it. \<open>process\<close> performs transitions
  only below its handler call. Assigning through the reference that \<open>getState\<close>
  returns, or to members of the host, performs no transition and leaves the index;
  \<open>currentStateId\<close> only reads it. After \<open>enterState\<close> has returned the index is below
  the number of states, whatever it was before.
\<close>

theorem index_changes_only_in_enterState:
  "index_discipline States m (run C States k c m)
   \<and> index_discipline States m (process C States (run C States k) ev m)
   \<and> index_discipline States m (enterState C States (run C States k) X m)
   \<and> (\<forall>m' acts. enterState C States (run C States k) X m = Returns (m', acts) \<longrightarrow>
         transitions_of acts \<noteq> [] \<and> currentStateId m' < length States)
   \<and> (\<forall>m' acts. run C States k (WriteState T f) m = Returns (m', acts) \<longrightarrow>
         transitions_of acts = [] \<and> currentStateId m' = currentStateId m)
   \<and> (\<forall>m' acts. run C States k (WriteMembers f) m = Returns (m', acts) \<longrightarrow>
         transitions_of acts = [] \<and> currentStateId m' = currentStateId m)
   \<and> currentStateId m = m_currentState m"
proof -
  have t: "tracking States (run C States k)" by (rule tracking_run)
  have a: "index_discipline States m (run C States k c m)"
    using t by (simp add: tracking_def tracked_index_discipline)
  have b: "index_discipline States m (process C States (run C States k) ev m)"
    by (rule tracked_index_discipline) (rule tracked_process [OF t])
  have e: "tracked States m (enterState C States (run C States k) X m)"
    by (rule tracked_enterState [OF t])
  have c: "index_discipline States m (enterState C States (run C States k) X m)"
    by (rule tracked_index_discipline) (rule e)
  have d: "transitions_of acts \<noteq> [] \<and> currentStateId m' < length States"
    if r: "enterState C States (run C States k) X m = Returns (m', acts)" for m' acts
  proof -
    from enterState_Returns(2) [OF r] have ne: "transitions_of acts \<noteq> []"
      by (auto simp: transitions_of_simps)
    from e r have tr: "tracked States m (Returns (m', acts))" by simp
    from tracked_Returns(3) [OF tr ne]
    have g: "getStateIndex States (last (transitions_of acts)) = Returns (m_currentState m')"
      and mem: "last (transitions_of acts) \<in> set States"
      by simp_all
    from getStateIndex_Returns [OF g] ranges_find_mem [OF mem] ne show ?thesis
      by (simp add: currentStateId_def)
  qed
  have w: "transitions_of acts = [] \<and> currentStateId m' = currentStateId m"
    if "run C States k (WriteState T f) m = Returns (m', acts)" for m' acts
    using that
    by (cases k; cases "getState States T")
      (auto simp: transitions_of_simps currentStateId_def)
  have h: "transitions_of acts = [] \<and> currentStateId m' = currentStateId m"
    if "run C States k (WriteMembers f) m = Returns (m', acts)" for m' acts
    using that by (cases k) (auto simp: transitions_of_simps currentStateId_def)
  have z: "currentStateId m = m_currentState m" by (simp add: currentStateId_def)
  from a b c d w h z show ?thesis by blast
qed


theorem index_changes_only_in_enterState_witness:
  "process ex2_classes MyFSM (run ex2_classes MyFSM 2) (LockEvent, 123) (MyFSM_ctor 123 1)
       = Returns (MyFSM_ctor 123 2,
           [HandleCall CloseState 1 (LockEvent, 123) [Transition LockedState]])
   \<and> index_discipline MyFSM (MyFSM_ctor 123 1)
        (Returns (MyFSM_ctor 123 2,
           [HandleCall CloseState 1 (LockEvent, 123) [Transition LockedState]])
          :: (door_state, door_event, nat, nat) run_result)
   \<and> getStateIndex MyFSM LockedState = Returns (currentStateId (MyFSM_ctor 123 2))
   \<and> currentStateId (MyFSM_ctor 123 2) < length MyFSM
   \<and> process ex2_classes MyFSM (run ex2_classes MyFSM 2) (CloseEvent, 0) (MyFSM_ctor 123 1)
       = Returns (MyFSM_ctor 123 1, [])
   \<and> index_discipline MyFSM (MyFSM_ctor 123 1)
        (Returns (MyFSM_ctor 123 1, []) :: (door_state, door_event, nat, nat) run_result)"
proof -
  let ?r = "Returns (MyFSM_ctor 123 2,
           [HandleCall CloseState 1 (LockEvent, 123) [Transition LockedState]])
          :: (door_state, door_event, nat, nat) run_result"
  have "index_discipline MyFSM (MyFSM_ctor 123 1)
          (process ex2_classes MyFSM (run ex2_classes MyFSM 2) (LockEvent, 123) (MyFSM_ctor 123 1))"
    using index_changes_only_in_enterState [where States = MyFSM and m = "MyFSM_ctor 123 1"
        and C = ex2_classes and k = 2 and ev = "(LockEvent, 123)" and c = Skip
        and X = OpenState and T = OpenState and f = members]
    by (elim conjE)
  then have a: "index_discipline MyFSM (MyFSM_ctor 123 1) ?r"
    by (simp only: MyFSM_locked_by_key)
  have "index_discipline MyFSM (MyFSM_ctor 123 1)
          (process ex2_classes MyFSM (run ex2_classes MyFSM 2) (CloseEvent, 0) (MyFSM_ctor 123 1))"
    using index_changes_only_in_enterState [where States = MyFSM and m = "MyFSM_ctor 123 1"
        and C = ex2_classes and k = 2 and ev = "(CloseEvent, 0)" and c = Skip
        and X = OpenState and T = OpenState and f = members]
    by (elim conjE)
  then have b: "index_discipline MyFSM (MyFSM_ctor 123 1)
        (Returns (MyFSM_ctor 123 1, []) :: (door_state, door_event, nat, nat) run_result)"
    by (simp only: MyFSM_close_when_closed)
  have valid: "currentStateId (MyFSM_ctor 123 1) < length MyFSM"
    by (simp add: currentStateId_def MyFSM_ctor_def MyFSM_def)
  from a valid have c: "getStateIndex MyFSM LockedState = Returns (currentStateId (MyFSM_ctor 123 2))
      \<and> currentStateId (MyFSM_ctor 123 2) < length MyFSM"
    by (simp add: index_discipline_def transitions_of_simps transitions_sub)
  from MyFSM_locked_by_key a c MyFSM_close_when_closed b show ?thesis
    by (intro conjI) (assumption | (elim conjE, assumption))+
qed

text \<open>
  C10. For every state \<open>S\<close> of a duplicate-free pack, \<open>getStateIndex\<close> for \<open>S\<close> is the one
  position \<open>i\<close> of the pack that holds \<open>S\<close>; \<open>processFromIndex\<close> for \<open>i\<close> resolves to
  \<open>S\<close> again, it is \<open>processFromState\<close> for \<open>S\<close>; and in the other direction
  \<open>getStateIndex\<close> of the type at a position is that position. The instance that the
  dispatch from index \<open>i\<close> calls the handler on is at the reference that \<open>getState\<close>
  for \<open>S\<close> returns, and that is the element \<open>i\<close> of the tuple.
\<close>

theorem index_type_round_trip:
  assumes "StateMachine_requires is_class States"
    and "S \<in> set States"
  shows "\<exists>i. getStateIndex States S = Returns i
           \<and> i < length States \<and> States ! i = S
           \<and> (\<forall>j < length States. States ! j = S \<longrightarrow> j = i)
           \<and> (\<forall>j < length States. getStateIndex States (States ! j) = Returns j)
           \<and> processFromIndex C States invoke i ev m = processFromState C States invoke S ev m
           \<and> getState States S = Returns i
           \<and> (m_currentState m = i \<longrightarrow>
                process C States invoke ev m = processFromState C States invoke S ev m
                \<and> (\<forall>m' acts T self e sub.
                      process C States invoke ev m = Returns (m', acts)
                      \<and> HandleCall T self e sub \<in> set acts \<longrightarrow>
                      T = S \<and> e = ev \<and> getState States S = Returns self))"
proof -
  let ?i = "ranges_find States S"
  have d: "distinct States" using assms(1) by (rule requires_distinct)
  have g: "getStateIndex States S = Returns ?i" using assms(2) by (rule getStateIndex_mem)
  have pos: "?i < length States" "States ! ?i = S"
    using ranges_find_mem [OF assms(2)] by simp_all
  have uniq: "\<forall>j < length States. States ! j = S \<longrightarrow> j = ?i"
    using position_unique [OF d] by blast
  have inv: "\<forall>j < length States. getStateIndex States (States ! j) = Returns j"
    using d by (simp add: getStateIndex_mem ranges_find_nth)
  have pfi: "processFromIndex C States invoke ?i ev m = processFromState C States invoke S ev m"
    using pos by (simp add: processFromIndex_valid)
  have gs: "getState States S = Returns ?i"
    using assms(2) d
    by (simp add: getState_def valid_state_v_def elem_in_list_v_set std_get_distinct)
  have disp: "process C States invoke ev m = processFromState C States invoke S ev m
                \<and> (\<forall>m' acts T self e sub.
                      process C States invoke ev m = Returns (m', acts)
                      \<and> HandleCall T self e sub \<in> set acts \<longrightarrow>
                      T = S \<and> e = ev \<and> getState States S = Returns self)"
    if at: "m_currentState m = ?i"
  proof -
    from at pos have p: "process C States invoke ev m = processFromState C States invoke S ev m"
      using process_valid [of m States C invoke ev] by simp
    have "T = S \<and> e = ev \<and> getState States S = Returns self"
      if r: "process C States invoke ev m = Returns (m', acts)"
        and h: "HandleCall T self e sub \<in> set acts" for m' acts T self e sub
    proof (cases "handle C S (fst ev)")
      case None
      with p r h show ?thesis by (simp add: processFromState_def has_handler_v_def)
    next
      case (Some body)
      with p r h d assms(2) gs show ?thesis
        by (cases "invoke (body (snd ev)) m")
          (auto simp: processFromState_def has_handler_v_def std_get_distinct)
    qed
    with p show ?thesis by blast
  qed
  from g pos uniq inv pfi gs disp show ?thesis by blast
qed

lemma MyFSM_index_of_LockedState: "getStateIndex MyFSM LockedState = Returns 2"
  by code_simp

theorem index_type_round_trip_witness:
  "StateMachine_requires every_type_is_class MyFSM \<and> LockedState \<in> set MyFSM
   \<and> getStateIndex MyFSM LockedState = Returns 2
   \<and> MyFSM ! 2 = LockedState
   \<and> getState MyFSM LockedState = Returns 2
   \<and> processFromIndex ex2_classes MyFSM (run ex2_classes MyFSM 2) 2 (UnlockEvent, 123)
        (MyFSM_ctor 123 2)
      = processFromState ex2_classes MyFSM (run ex2_classes MyFSM 2) LockedState (UnlockEvent, 123)
        (MyFSM_ctor 123 2)"
proof -
  have mem: "LockedState \<in> set MyFSM" by (simp add: MyFSM_def)
  from index_type_round_trip [OF MyFSM_requires mem, of ex2_classes "run ex2_classes MyFSM 2"
      "(UnlockEvent, 123)" "MyFSM_ctor 123 2"]
  obtain i where g: "getStateIndex MyFSM LockedState = Returns i"
    and at: "MyFSM ! i = LockedState"
    and gs: "getState MyFSM LockedState = Returns i"
    and p: "processFromIndex ex2_classes MyFSM (run ex2_classes MyFSM 2) i (UnlockEvent, 123)
        (MyFSM_ctor 123 2)
      = processFromState ex2_classes MyFSM (run ex2_classes MyFSM 2) LockedState (UnlockEvent, 123)
        (MyFSM_ctor 123 2)"
    by blast
  from g MyFSM_index_of_LockedState have i: "i = 2" by simp
  from MyFSM_requires mem g at gs p show ?thesis unfolding i
    by (intro conjI) (assumption | (elim conjE, assumption))+
qed

end
